theory Spec2Isabelle
  imports Main "HOL-Library.Sublist" "HOL-Library.Char_ord" "HOL-Library.List_Lexorder"
begin

section \<open>Data model: analysis steps and their raw state\<close>

text \<open>
  A raw state value as the panel reads it from a state object: a string, a number, a
  boolean, \<open>null\<close>, an object that may carry a \<open>text\<close> field (a multiformat message
  string), or a function (only the built-in members of \<open>Object.prototype\<close> are
  functions; a parsed SARIF log holds none of its own). The conversion of a double to
  its decimal form is not modelled: a number is carried as the string that \<open>String\<close>
  yields for it, and a function as its source text.
\<close>

datatype raw_value =
    VString string
  | VNumber string
  | VBool bool
  | VNull
  | VObject "string option"
  | VFunction string

text \<open>
  A thread flow location. \<open>oid\<close> is the object's identity (what \<open>===\<close> compares);
  \<open>state\<close> is the optional state object, as the list of its own entries in
  enumeration order.
\<close>

record tfl =
  oid :: nat
  state :: "(string \<times> raw_value) list option"

datatype error = TypeError

subsection \<open>Canonical string form (\<open>String(value)\<close>)\<close>

fun String :: "raw_value \<Rightarrow> string" where
  "String (VString s) = s"
| "String (VNumber n) = n"
| "String (VBool b) = (if b then ''true'' else ''false'')"
| "String VNull = ''null''"
| "String (VObject t) = ''[object Object]''"
| "String (VFunction src) = src"

subsection \<open>\<open>String.prototype.replace\<close> with the global pattern \<open>/\{expr\}/g\<close>\<close>

text \<open>
  The replacement argument of \<open>replace\<close> is a template: \<open>$$\<close> stands for a dollar sign,
  \<open>$&\<close> for the matched text, \<open>$`\<close> for the text before the match (\<open>pre\<close>) and
  \<open>$'\<close> for the text after it (\<open>post\<close>). The pattern has no capture group, so \<open>$1\<close> and the like stay as they are.
\<close>

fun get_substitution :: "string \<Rightarrow> string \<Rightarrow> string \<Rightarrow> string \<Rightarrow> string" where
  "get_substitution matched pre post [] = []"
| "get_substitution matched pre post [c] = [c]"
| "get_substitution matched pre post (c # d # rest) =
     (if c \<noteq> CHR ''$'' then c # get_substitution matched pre post (d # rest)
      else if d = CHR ''$'' then CHR ''$'' # get_substitution matched pre post rest
      else if d = CHR ''&'' then matched @ get_substitution matched pre post rest
      else if d = CHR 0x60 then pre @ get_substitution matched pre post rest
      else if d = CHR 0x27 then post @ get_substitution matched pre post rest
      else c # get_substitution matched pre post (d # rest))"

text \<open>
  \<open>replace_expr repl pre rest\<close>: the scan has consumed \<open>pre\<close> and looks at
  \<open>rest\<close>; every occurrence of the placeholder, left to right, is replaced by the
  expansion of the template \<open>repl\<close>.
\<close>

function replace_expr :: "string \<Rightarrow> string \<Rightarrow> string \<Rightarrow> string" where
  "replace_expr repl pre [] = []"
| "replace_expr repl pre (c # cs) =
     (if take 6 (c # cs) = ''{expr}''
      then get_substitution ''{expr}'' pre (drop 6 (c # cs)) repl
             @ replace_expr repl (pre @ ''{expr}'') (drop 6 (c # cs))
      else c # replace_expr repl (pre @ [c]) cs)"
  by pat_completeness auto
termination
  by (relation "measure (\<lambda>(repl, pre, rest). length rest)") auto

subsection \<open>Projection of one raw value (\<open>statesTableStore\<close>, \<open>getVariableValue\<close>)\<close>

text \<open>\<open>typeof value === 'object' && value?.text\<close>: an object whose text is a non-empty string.\<close>

fun has_truthy_text :: "raw_value \<Rightarrow> bool" where
  "has_truthy_text (VObject (Some t)) = (t \<noteq> [])"
| "has_truthy_text v = False"

fun text_of :: "raw_value \<Rightarrow> string" where
  "text_of (VObject (Some t)) = t"
| "text_of v = []"

definition processValue :: "string \<Rightarrow> raw_value \<Rightarrow> string" where
  "processValue key v =
     (let processedValue = (if has_truthy_text v then text_of v else String v)
      in replace_expr (''('' @ key @ '')'') [] processedValue)"

text \<open>The computed property \<open>statesTableStore\<close>: the entries of the selected location.\<close>

definition statesTableEntries :: "tfl option \<Rightarrow> (string \<times> string) list" where
  "statesTableEntries selectedLocation =
     (case selectedLocation of
        None \<Rightarrow> []
      | Some loc \<Rightarrow> (case state loc of
                      None \<Rightarrow> []
                    | Some st \<Rightarrow> map (\<lambda>(key, v). (key, processValue key v)) st))"

section \<open>Navigation over the thread flow locations\<close>

text \<open>Array read: an index outside the array gives \<open>undefined\<close> (\<open>None\<close>).\<close>

definition at :: "'a list \<Rightarrow> int \<Rightarrow> 'a option" where
  "at xs i = (if 0 \<le> i \<and> i < int (length xs) then Some (xs ! nat i) else None)"

fun findIndex :: "('a \<Rightarrow> bool) \<Rightarrow> 'a list \<Rightarrow> int" where
  "findIndex P [] = - 1"
| "findIndex P (x # xs) =
     (if P x then 0 else (let r = findIndex P xs in if r = - 1 then - 1 else r + 1))"

definition getCurrentStepIndex :: "tfl list \<Rightarrow> tfl option \<Rightarrow> int" where
  "getCurrentStepIndex threadFlowLocations selected =
     findIndex (\<lambda>t. case selected of None \<Rightarrow> False | Some s \<Rightarrow> oid t = oid s) threadFlowLocations"

text \<open>
  A state object is a plain object, so a property read that finds no own entry goes on
  to \<open>Object.prototype\<close>. Its members are built-in functions, printed by \<open>String\<close> as
  \<open>function name() { [native code] }\<close>, and the accessor \<open>__proto__\<close>, whose value is
  \<open>Object.prototype\<close> itself, an object without a \<open>text\<close> field.
\<close>

definition native_code :: "string \<Rightarrow> raw_value" where
  "native_code name = VFunction (''function '' @ name @ ''() { [native code] }'')"

definition object_prototype :: "(string \<times> raw_value) list" where
  "object_prototype =
     [(''constructor'', native_code ''Object''),
      (''__defineGetter__'', native_code ''__defineGetter__''),
      (''__defineSetter__'', native_code ''__defineSetter__''),
      (''hasOwnProperty'', native_code ''hasOwnProperty''),
      (''__lookupGetter__'', native_code ''__lookupGetter__''),
      (''__lookupSetter__'', native_code ''__lookupSetter__''),
      (''isPrototypeOf'', native_code ''isPrototypeOf''),
      (''propertyIsEnumerable'', native_code ''propertyIsEnumerable''),
      (''toString'', native_code ''toString''),
      (''valueOf'', native_code ''valueOf''),
      (''__proto__'', VObject None),
      (''toLocaleString'', native_code ''toLocaleString'')]"

text \<open>
  The property read \<open>state[variable]\<close>: the own entry when there is one, otherwise the
  inherited member, otherwise \<open>undefined\<close> (\<open>None\<close>).
\<close>

definition property_read :: "(string \<times> raw_value) list \<Rightarrow> string \<Rightarrow> raw_value option" where
  "property_read st variable =
     (case map_of st variable of
        Some v \<Rightarrow> Some v
      | None \<Rightarrow> map_of object_prototype variable)"

text \<open>Reading \<open>step.state\<close> of an undefined step raises a TypeError.\<close>

definition getVariableValue :: "tfl option \<Rightarrow> string \<Rightarrow> error + string option" where
  "getVariableValue step variable =
     (case step of
        None \<Rightarrow> Inl TypeError
      | Some s \<Rightarrow> (case state s of
                    None \<Rightarrow> Inr None
                  | Some st \<Rightarrow> (case property_read st variable of
                                 None \<Rightarrow> Inr None
                               | Some v \<Rightarrow> Inr (Some (processValue variable v)))))"

text \<open>\<open>Object.keys\<close> lists own entries only.\<close>

definition hasValidState :: "tfl option \<Rightarrow> error + bool" where
  "hasValidState step =
     (case step of
        None \<Rightarrow> Inl TypeError
      | Some s \<Rightarrow> (case state s of None \<Rightarrow> Inr False | Some st \<Rightarrow> Inr (length st > 0)))"

text \<open>
  The loop of \<open>findInitialized\<close>, \<open>for (i = 0; i < length; i++)\<close>, from index \<open>i\<close>.
\<close>

function initLoop :: "tfl list \<Rightarrow> string \<Rightarrow> nat \<Rightarrow> error + nat option" where
  "initLoop tfls variable i =
     (if \<not> i < length tfls then Inr None
      else case hasValidState (at tfls (int i)) of
             Inl e \<Rightarrow> Inl e
           | Inr valid \<Rightarrow>
               if \<not> valid then initLoop tfls variable (Suc i)
               else (case getVariableValue (at tfls (int i)) variable of
                       Inl e \<Rightarrow> Inl e
                     | Inr None \<Rightarrow> initLoop tfls variable (Suc i)
                     | Inr (Some stepValue) \<Rightarrow> Inr (Some i)))"
  by pat_completeness auto
termination
  by (relation "measure (\<lambda>(tfls, variable, i). length tfls - i)") auto

declare initLoop.simps [simp del]

definition findInitialized :: "tfl list \<Rightarrow> string \<Rightarrow> error + nat option" where
  "findInitialized tfls variable = initLoop tfls variable 0"

text \<open>
  The backward loop \<open>for (i = start; i >= 0; i--)\<close> of \<open>findPreviouslyChanged\<close>:
  \<open>prevLoop \<dots> k\<close> runs it from \<open>i = k - 1\<close>, so the start \<open>currentStepIndex - 1\<close>
  is \<open>k = currentStepIndex\<close>.
\<close>

fun prevLoop :: "tfl list \<Rightarrow> string \<Rightarrow> string \<Rightarrow> nat \<Rightarrow> error + nat option" where
  "prevLoop tfls variable currentValue 0 = Inr None"
| "prevLoop tfls variable currentValue (Suc i) =
     (case hasValidState (at tfls (int i)) of
        Inl e \<Rightarrow> Inl e
      | Inr valid \<Rightarrow>
          if \<not> valid then prevLoop tfls variable currentValue i
          else (case getVariableValue (at tfls (int i)) variable of
                  Inl e \<Rightarrow> Inl e
                | Inr None \<Rightarrow> prevLoop tfls variable currentValue i
                | Inr (Some stepValue) \<Rightarrow>
                    if stepValue \<noteq> currentValue then Inr (Some i)
                    else prevLoop tfls variable currentValue i))"

definition findPreviouslyChangedAt :: "tfl list \<Rightarrow> string \<Rightarrow> int \<Rightarrow> error + nat option" where
  "findPreviouslyChangedAt tfls variable currentStepIndex =
     (if currentStepIndex \<le> 0 then Inr None
      else case getVariableValue (at tfls currentStepIndex) variable of
             Inl e \<Rightarrow> Inl e
           | Inr None \<Rightarrow> Inr None
           | Inr (Some currentValue) \<Rightarrow>
               prevLoop tfls variable currentValue (nat currentStepIndex))"

definition findPreviouslyChanged :: "tfl list \<Rightarrow> tfl option \<Rightarrow> string \<Rightarrow> error + nat option" where
  "findPreviouslyChanged tfls selected variable =
     findPreviouslyChangedAt tfls variable (getCurrentStepIndex tfls selected)"

text \<open>The forward loop of \<open>findNextChanged\<close>, from index \<open>i\<close>.\<close>

function nextLoop :: "tfl list \<Rightarrow> string \<Rightarrow> string \<Rightarrow> nat \<Rightarrow> error + nat option" where
  "nextLoop tfls variable currentValue i =
     (if \<not> i < length tfls then Inr None
      else case hasValidState (at tfls (int i)) of
             Inl e \<Rightarrow> Inl e
           | Inr valid \<Rightarrow>
               if \<not> valid then nextLoop tfls variable currentValue (Suc i)
               else (case getVariableValue (at tfls (int i)) variable of
                       Inl e \<Rightarrow> Inl e
                     | Inr None \<Rightarrow> nextLoop tfls variable currentValue (Suc i)
                     | Inr (Some stepValue) \<Rightarrow>
                         if stepValue \<noteq> currentValue then Inr (Some i)
                         else nextLoop tfls variable currentValue (Suc i)))"
  by pat_completeness auto
termination
  by (relation "measure (\<lambda>(tfls, variable, currentValue, i). length tfls - i)") auto

declare nextLoop.simps [simp del]

definition findNextChangedAt :: "tfl list \<Rightarrow> string \<Rightarrow> int \<Rightarrow> error + nat option" where
  "findNextChangedAt tfls variable currentStepIndex =
     (if currentStepIndex = - 1 \<or> currentStepIndex \<ge> int (length tfls) - 1 then Inr None
      else case getVariableValue (at tfls currentStepIndex) variable of
             Inl e \<Rightarrow> Inl e
           | Inr None \<Rightarrow> Inr None
           | Inr (Some currentValue) \<Rightarrow>
               nextLoop tfls variable currentValue (nat (currentStepIndex + 1)))"

definition findNextChanged :: "tfl list \<Rightarrow> tfl option \<Rightarrow> string \<Rightarrow> error + nat option" where
  "findNextChanged tfls selected variable =
     findNextChangedAt tfls variable (getCurrentStepIndex tfls selected)"

text \<open>
  The backward loop of \<open>findLastChanged\<close>: \<open>lastLoop \<dots> k\<close> runs it from
  \<open>i = k - 1\<close>, so the start \<open>length - 2\<close> is \<open>k = length - 1\<close>. A differing step whose
  successor has no valid state does not end the loop.
\<close>

fun lastLoop :: "tfl list \<Rightarrow> string \<Rightarrow> string \<Rightarrow> nat \<Rightarrow> error + nat option" where
  "lastLoop tfls variable finalValue 0 = Inr None"
| "lastLoop tfls variable finalValue (Suc i) =
     (case hasValidState (at tfls (int i)) of
        Inl e \<Rightarrow> Inl e
      | Inr valid \<Rightarrow>
          if \<not> valid then lastLoop tfls variable finalValue i
          else (case getVariableValue (at tfls (int i)) variable of
                  Inl e \<Rightarrow> Inl e
                | Inr None \<Rightarrow> lastLoop tfls variable finalValue i
                | Inr (Some stepValue) \<Rightarrow>
                    if stepValue \<noteq> finalValue
                    then (let targetStepIndex = i + 1 in
                          if \<not> targetStepIndex < length tfls then lastLoop tfls variable finalValue i
                          else (case hasValidState (at tfls (int targetStepIndex)) of
                                  Inl e \<Rightarrow> Inl e
                                | Inr targetValid \<Rightarrow>
                                    if targetValid then Inr (Some targetStepIndex)
                                    else lastLoop tfls variable finalValue i))
                    else lastLoop tfls variable finalValue i))"

definition findLastChanged :: "tfl list \<Rightarrow> string \<Rightarrow> error + nat option" where
  "findLastChanged tfls variable =
     (if length tfls = 0 then Inr None
      else let finalStep = at tfls (int (length tfls) - 1) in
        case hasValidState finalStep of
          Inl e \<Rightarrow> Inl e
        | Inr valid \<Rightarrow>
            if \<not> valid then Inr None
            else (case getVariableValue finalStep variable of
                    Inl e \<Rightarrow> Inl e
                  | Inr None \<Rightarrow> Inr None
                  | Inr (Some finalValue) \<Rightarrow>
                      lastLoop tfls variable finalValue (length tfls - 1)))"

subsection \<open>Predicates used to state the navigation results\<close>

text \<open>
  \<open>own_entry step variable\<close>: the entry of the variable in the state of the step, if the
  step has a state and the state has such an entry. A variable is defined at a step when
  this is not \<open>None\<close>.
\<close>

definition own_entry :: "tfl \<Rightarrow> string \<Rightarrow> raw_value option" where
  "own_entry step variable = (case state step of None \<Rightarrow> None | Some st \<Rightarrow> map_of st variable)"

text \<open>
  \<open>differs_at tfls variable v i\<close>: step \<open>i\<close> has non-empty state, \<open>getVariableValue\<close>
  gives a value there, and that value is not \<open>v\<close>.
\<close>

definition differs_at :: "tfl list \<Rightarrow> string \<Rightarrow> string \<Rightarrow> nat \<Rightarrow> bool" where
  "differs_at tfls variable v i =
     (hasValidState (at tfls (int i)) = Inr True \<and>
      (case getVariableValue (at tfls (int i)) variable of
         Inr (Some stepValue) \<Rightarrow> stepValue \<noteq> v
       | _ \<Rightarrow> False))"

text \<open>
  \<open>last_target tfls variable v i\<close>: step \<open>i\<close> differs from \<open>v\<close> and the step after it
  exists and has non-empty state.
\<close>

definition last_target :: "tfl list \<Rightarrow> string \<Rightarrow> string \<Rightarrow> nat \<Rightarrow> bool" where
  "last_target tfls variable v i =
     (differs_at tfls variable v i \<and> Suc i < length tfls \<and>
      hasValidState (at tfls (int (Suc i))) = Inr True)"

text \<open>
  Scenario 2 of the specification: \<open>ptr\<close> is \<open>0x0\<close> at steps 0 and 2, \<open>0x4\<close> at
  step 3, and step 1 has an empty state.
\<close>

definition scenario2 :: "tfl list" where
  "scenario2 =
     [\<lparr>oid = 0, state = Some [(''ptr'', VString ''0x0'')]\<rparr>,
      \<lparr>oid = 1, state = Some []\<rparr>,
      \<lparr>oid = 2, state = Some [(''ptr'', VString ''0x0'')]\<rparr>,
      \<lparr>oid = 3, state = Some [(''ptr'', VString ''0x4'')]\<rparr>]"

text \<open>Scenario 3 of the specification: a variable that never changes.\<close>

definition scenario3 :: "tfl list" where
  "scenario3 =
     [\<lparr>oid = 0, state = Some [(''ptr'', VString ''0x0'')]\<rparr>,
      \<lparr>oid = 1, state = Some [(''ptr'', VString ''0x0''), (''n'', VNumber ''1'')]\<rparr>,
      \<lparr>oid = 2, state = Some [(''ptr'', VString ''0x0'')]\<rparr>]"


text \<open>
  Two timelines with a variable named like a member of \<open>Object.prototype\<close>: the state
  of one step has an entry \<open>constructor\<close>, the state of the other step has only \<open>x\<close>.
\<close>

definition inherited_prev :: "tfl list" where
  "inherited_prev =
     [\<lparr>oid = 0, state = Some [(''x'', VString ''1'')]\<rparr>,
      \<lparr>oid = 1, state = Some [(''constructor'', VString ''C'')]\<rparr>]"

definition inherited_last :: "tfl list" where
  "inherited_last =
     [\<lparr>oid = 0, state = Some [(''constructor'', VString ''C'')]\<rparr>,
      \<lparr>oid = 1, state = Some [(''x'', VString ''1'')]\<rparr>]"

text \<open>
  A timeline where the step after a differing step has an empty state: \<open>a\<close> is \<open>1\<close>,
  \<open>3\<close>, absent (empty state), \<open>2\<close>.
\<close>

definition unusable_successor :: "tfl list" where
  "unusable_successor =
     [\<lparr>oid = 0, state = Some [(''a'', VString ''1'')]\<rparr>,
      \<lparr>oid = 1, state = Some [(''a'', VString ''3'')]\<rparr>,
      \<lparr>oid = 2, state = Some []\<rparr>,
      \<lparr>oid = 3, state = Some [(''a'', VString ''2'')]\<rparr>]"

text \<open>
  \<open>initialized_at tfls variable i\<close>: step \<open>i\<close> has non-empty state and
  \<open>getVariableValue\<close> gives a value there.
\<close>

definition initialized_at :: "tfl list \<Rightarrow> string \<Rightarrow> nat \<Rightarrow> bool" where
  "initialized_at tfls variable i =
     (hasValidState (at tfls (int i)) = Inr True \<and>
      (case getVariableValue (at tfls (int i)) variable of
         Inr (Some stepValue) \<Rightarrow> True
       | _ \<Rightarrow> False))"

section \<open>The token scanner (\<open>renderVariableName\<close>)\<close>

text \<open>
  A text is a list of code units; \<open>char\<close> covers the code units below 256, which
  include every character the five patterns name.
\<close>

subsection \<open>Regular expressions with backtracking\<close>

datatype regex =
    Cls "char \<Rightarrow> bool"
  | Lit string
  | Bol
  | Eol
  | Seq regex regex
  | Alt regex regex
  | Star regex
  | Plus regex
  | Opt regex

fun weight :: "regex \<Rightarrow> nat" where
  "weight (Cls P) = 0"
| "weight (Lit s) = 0"
| "weight Bol = 0"
| "weight Eol = 0"
| "weight (Seq a b) = Suc (weight a + weight b)"
| "weight (Alt a b) = Suc (weight a + weight b)"
| "weight (Star a) = Suc (weight a)"
| "weight (Plus a) = Suc (Suc (weight a))"
| "weight (Opt a) = Suc (weight a)"

text \<open>
  \<open>rmatch r text i\<close> lists the positions at which a match of \<open>r\<close> that starts at
  position \<open>i\<close> can end, in the order in which a backtracking matcher tries them:
  the quantifiers are greedy, the left alternative comes first. An iteration of a
  quantifier that consumes nothing is rejected. The bound \<open>j \<le> length text\<close> in the
  iteration holds for every position the matcher yields.
\<close>

function rmatch :: "regex \<Rightarrow> string \<Rightarrow> nat \<Rightarrow> nat list" where
  "rmatch (Cls P) text i = (if i < length text \<and> P (text ! i) then [Suc i] else [])"
| "rmatch (Lit s) text i = (if take (length s) (drop i text) = s then [i + length s] else [])"
| "rmatch Bol text i = (if i = 0 then [i] else [])"
| "rmatch Eol text i = (if i = length text then [i] else [])"
| "rmatch (Seq a b) text i = concat (map (\<lambda>j. rmatch b text j) (rmatch a text i))"
| "rmatch (Alt a b) text i = rmatch a text i @ rmatch b text i"
| "rmatch (Star a) text i =
     concat (map (\<lambda>j. if i < j \<and> j \<le> length text then rmatch (Star a) text j else [])
                 (rmatch a text i)) @ [i]"
| "rmatch (Plus a) text i = concat (map (\<lambda>j. rmatch (Star a) text j) (rmatch a text i))"
| "rmatch (Opt a) text i = filter (\<lambda>j. i < j) (rmatch a text i) @ [i]"
  by pat_completeness auto
termination
  by (relation "measures [\<lambda>(r, text, i). weight r, \<lambda>(r, text, i). length text - i]") auto

text \<open>The equation of the star unfolds into itself; it is applied by hand.\<close>

declare rmatch.simps(7) [simp del]

subsection \<open>The five patterns\<close>

definition is_lower :: "char \<Rightarrow> bool" where
  "is_lower c = (CHR ''a'' \<le> c \<and> c \<le> CHR ''z'')"

definition is_upper :: "char \<Rightarrow> bool" where
  "is_upper c = (CHR ''A'' \<le> c \<and> c \<le> CHR ''Z'')"

definition is_digit :: "char \<Rightarrow> bool" where
  "is_digit c = (CHR ''0'' \<le> c \<and> c \<le> CHR ''9'')"

text \<open>\<open>[a-zA-Z_]\<close>, \<open>[a-zA-Z0-9_]\<close> and \<open>[^a-zA-Z0-9_.]\<close>.\<close>

definition ident_start :: "char \<Rightarrow> bool" where
  "ident_start c = (is_lower c \<or> is_upper c \<or> c = CHR ''_'')"

definition ident_char :: "char \<Rightarrow> bool" where
  "ident_char c = (is_lower c \<or> is_upper c \<or> is_digit c \<or> c = CHR ''_'')"

definition boundary_char :: "char \<Rightarrow> bool" where
  "boundary_char c = (\<not> (ident_char c \<or> c = CHR ''.''))"

text \<open>\<open>[a-zA-Z_][a-zA-Z0-9_]*\<close>\<close>

definition ident :: regex where
  "ident = Seq (Cls ident_start) (Star (Cls ident_char))"

text \<open>\<open>(?:`\d+[a-z]?)?\<close>\<close>

definition subscript :: regex where
  "subscript = Opt (Seq (Lit [CHR 0x60]) (Seq (Plus (Cls is_digit)) (Opt (Cls is_lower))))"

text \<open>\<open>[a-zA-Z_][a-zA-Z0-9_]*(?:\.[a-zA-Z_][a-zA-Z0-9_]*)+(?:\(\))?(?:`\d+[a-z]?)?\<close>\<close>

definition dot_chain :: regex where
  "dot_chain = Seq ident (Seq (Plus (Seq (Lit ''.'') ident)) (Seq (Opt (Lit ''()'')) subscript))"

text \<open>\<open>[a-zA-Z_][a-zA-Z0-9_]*(?:->[a-zA-Z_][a-zA-Z0-9_]*)+(?:`\d+[a-z]?)?\<close>\<close>

definition arrow_chain :: regex where
  "arrow_chain = Seq ident (Seq (Plus (Seq (Lit ''->'') ident)) subscript)"

text \<open>\<open>offset\([^)]+\)(?:`\d+[a-z]?)?\<close>\<close>

definition offset_call :: regex where
  "offset_call = Seq (Lit ''offset('') (Seq (Plus (Cls (\<lambda>c. c \<noteq> CHR '')''))) (Seq (Lit '')'') subscript))"

text \<open>\<open>\{[^}]+\}(?:[`']\d+[a-z]?)?\<close>\<close>

definition brace_expr :: regex where
  "brace_expr =
     Seq (Lit ''{'') (Seq (Plus (Cls (\<lambda>c. c \<noteq> CHR ''}''))) (Seq (Lit ''}'')
       (Opt (Seq (Cls (\<lambda>c. c = CHR 0x60 \<or> c = CHR 0x27)) (Seq (Plus (Cls is_digit)) (Opt (Cls is_lower)))))))"

text \<open>
  The three capture groups of the last pattern:
  \<open>(^|[^a-zA-Z0-9_.])\<close>, \<open>([a-zA-Z_][a-zA-Z0-9_]*(?:`\d+[a-z]?)?)\<close> and
  \<open>($|[^a-zA-Z0-9_.])\<close>.
\<close>

definition word_prefix :: regex where
  "word_prefix = Alt Bol (Cls boundary_char)"

definition word_body :: regex where
  "word_body = Seq ident subscript"

definition word_suffix :: regex where
  "word_suffix = Alt Eol (Cls boundary_char)"

text \<open>
  A pattern is its regular expression cut at its capture groups: the first four
  patterns are one group around everything, the last is three groups in sequence.
\<close>

datatype pattern = Whole regex | Delimited regex regex regex

definition patterns :: "pattern list" where
  "patterns = [Whole dot_chain, Whole arrow_chain, Whole offset_call, Whole brace_expr,
               Delimited word_prefix word_body word_suffix]"

subsection \<open>\<open>RegExp.prototype.exec\<close> with the global flag\<close>

text \<open>
  The result of a successful \<open>exec\<close>: \<open>match.index\<close>, the capture groups \<open>match[1]\<close>,
  \<open>match[2]\<close>, \<dots> and the pattern's new \<open>lastIndex\<close>, the end of the match.
\<close>

record exec_result =
  match_index :: nat
  groups :: "string list"
  end_index :: nat

definition slice :: "string \<Rightarrow> nat \<Rightarrow> nat \<Rightarrow> string" where
  "slice text a b = take (b - a) (drop a text)"

text \<open>The ways the pattern matches at position \<open>i\<close>, in backtracking order.\<close>

fun outcomes :: "pattern \<Rightarrow> string \<Rightarrow> nat \<Rightarrow> exec_result list" where
  "outcomes (Whole r) text i =
     map (\<lambda>e. \<lparr>match_index = i, groups = [slice text i e], end_index = e\<rparr>) (rmatch r text i)"
| "outcomes (Delimited a b c) text i =
     concat (map (\<lambda>p1.
       concat (map (\<lambda>p2.
         map (\<lambda>p3. \<lparr>match_index = i,
                     groups = [slice text i p1, slice text p1 p2, slice text p2 p3],
                     end_index = p3\<rparr>)
             (rmatch c text p2))
         (rmatch b text p1)))
       (rmatch a text i))"

text \<open>The search: the first position from \<open>i\<close> on at which the pattern matches.\<close>

function exec :: "pattern \<Rightarrow> string \<Rightarrow> nat \<Rightarrow> exec_result option" where
  "exec p text i =
     (if length text < i then None
      else case outcomes p text i of
             [] \<Rightarrow> exec p text (Suc i)
           | m # _ \<Rightarrow> Some m)"
  by pat_completeness auto
termination
  by (relation "measure (\<lambda>(p, text, i). Suc (length text) - i)") auto

declare exec.simps [simp del]

subsection \<open>Collecting, sorting and sweeping the matches\<close>

record match_info =
  match :: string
  index :: nat
  mlength :: nat

definition is_white_space :: "char \<Rightarrow> bool" where
  "is_white_space c = (of_char c \<in> {9, 10, 11, 12, 13, 32, 160 :: nat})"

definition trim :: "string \<Rightarrow> string" where
  "trim s = rev (dropWhile is_white_space (rev (dropWhile is_white_space s)))"

text \<open>
  The loop \<open>while ((match = pattern.exec(text)) !== null)\<close> for one pattern, from the
  pattern's \<open>lastIndex\<close>. A match that did not move \<open>lastIndex\<close> would repeat forever;
  then the loop has no result.
\<close>

partial_function (option) collect :: "nat \<Rightarrow> pattern \<Rightarrow> string \<Rightarrow> nat \<Rightarrow> match_info list option" where
  "collect patternIndex pattern text lastIndex =
     (case exec pattern text lastIndex of
        None \<Rightarrow> Some []
      | Some m \<Rightarrow>
          (let matchText = (if patternIndex = 4 then groups m ! 1 else groups m ! 0);
               matchIndex = (if patternIndex = 4 then match_index m + length (groups m ! 0)
                             else match_index m);
               found = (if matchText \<noteq> [] \<and> trim matchText \<noteq> []
                        then [\<lparr>match = matchText, index = matchIndex, mlength = length matchText\<rparr>]
                        else [])
           in Option.bind (collect patternIndex pattern text (end_index m))
                (\<lambda>rest. Some (found @ rest))))"

declare collect.simps [code]

text \<open>\<open>patterns.forEach((pattern, patternIndex) => \<dots>)\<close>\<close>

fun collect_all :: "(nat \<times> pattern) list \<Rightarrow> string \<Rightarrow> match_info list option" where
  "collect_all [] text = Some []"
| "collect_all ((patternIndex, pattern) # ps) text =
     Option.bind (collect patternIndex pattern text 0) (\<lambda>ms.
     Option.bind (collect_all ps text) (\<lambda>rest. Some (ms @ rest)))"

definition raw_matches :: "string \<Rightarrow> match_info list option" where
  "raw_matches text = collect_all (enumerate 0 patterns) text"

text \<open>
  The sweep over the sorted matches: \<open>uniqueMatches\<close> so far, then the matches that
  remain.
\<close>

fun remove_overlaps :: "match_info list \<Rightarrow> match_info list \<Rightarrow> match_info list" where
  "remove_overlaps uniqueMatches [] = uniqueMatches"
| "remove_overlaps uniqueMatches (currentMatch # rest) =
     (if uniqueMatches = [] \<or>
         index currentMatch \<ge> index (last uniqueMatches) + mlength (last uniqueMatches)
      then remove_overlaps (uniqueMatches @ [currentMatch]) rest
      else remove_overlaps uniqueMatches rest)"

text \<open>
  \<open>matches.sort((a, b) => a.index - b.index)\<close>: \<open>Array.prototype.sort\<close> is stable
  (ECMAScript 2019), so matches with equal index keep the order of their collection.
\<close>

definition unique_matches :: "string \<Rightarrow> match_info list option" where
  "unique_matches text = map_option (\<lambda>matches. remove_overlaps [] (sort_key index matches)) (raw_matches text)"

subsection \<open>Building the parts\<close>

text \<open>\<open>String.prototype.substring\<close>: both ends are clamped to the text and swapped if needed.\<close>

definition substring :: "string \<Rightarrow> nat \<Rightarrow> nat \<Rightarrow> string" where
  "substring text a b =
     (let a' = min a (length text); b' = min b (length text)
      in slice text (min a' b') (max a' b'))"

datatype part = Plain string | Span string

fun part_text :: "part \<Rightarrow> string" where
  "part_text (Plain s) = s"
| "part_text (Span s) = s"

fun build_parts :: "string \<Rightarrow> nat \<Rightarrow> match_info list \<Rightarrow> part list" where
  "build_parts text lastIndex [] =
     (if lastIndex < length text then [Plain (substring text lastIndex (length text))] else [])"
| "build_parts text lastIndex (matchInfo # rest) =
     (if index matchInfo > lastIndex then [Plain (substring text lastIndex (index matchInfo))] else [])
     @ [Span (match matchInfo)]
     @ build_parts text (index matchInfo + mlength matchInfo) rest"

datatype rendered = Fragment "part list" | Text string

definition renderVariableName :: "string \<Rightarrow> rendered option" where
  "renderVariableName text =
     map_option (\<lambda>uniqueMatches.
        if length uniqueMatches > 0 then Fragment (build_parts text 0 uniqueMatches) else Text text)
       (unique_matches text)"

fun rendered_text :: "rendered \<Rightarrow> string" where
  "rendered_text (Fragment parts) = concat (map part_text parts)"
| "rendered_text (Text s) = s"

subsection \<open>Predicates used to state the scanner results\<close>

text \<open>\<open>consumes r\<close>: by its shape, \<open>r\<close> cannot match the empty string.\<close>

fun consumes :: "regex \<Rightarrow> bool" where
  "consumes (Cls P) = True"
| "consumes (Lit s) = (s \<noteq> [])"
| "consumes Bol = False"
| "consumes Eol = False"
| "consumes (Seq a b) = (consumes a \<or> consumes b)"
| "consumes (Alt a b) = (consumes a \<and> consumes b)"
| "consumes (Star a) = False"
| "consumes (Plus a) = consumes a"
| "consumes (Opt a) = False"

text \<open>A pattern whose every match moves \<open>lastIndex\<close>.\<close>

fun pattern_consumes :: "pattern \<Rightarrow> bool" where
  "pattern_consumes (Whole r) = consumes r"
| "pattern_consumes (Delimited a b c) = (consumes a \<or> consumes b \<or> consumes c)"

text \<open>The loop reads three groups exactly for the pattern at index 4.\<close>

fun well_indexed :: "nat \<times> pattern \<Rightarrow> bool" where
  "well_indexed (patternIndex, Whole r) = (patternIndex \<noteq> 4)"
| "well_indexed (patternIndex, Delimited a b c) = (patternIndex = 4)"

text \<open>A match record that holds the text of its own range, which is not empty.\<close>

definition wf_match :: "string \<Rightarrow> match_info \<Rightarrow> bool" where
  "wf_match t m = (match m = slice t (index m) (index m + mlength m) \<and> 0 < mlength m \<and>
                   index m + mlength m \<le> length t)"

text \<open>Matches in sequence from position \<open>e\<close> on: each begins where the one before has ended, or later.\<close>

fun ordered_from :: "nat \<Rightarrow> match_info list \<Rightarrow> bool" where
  "ordered_from e [] = True"
| "ordered_from e (m # ms) = (e \<le> index m \<and> ordered_from (index m + mlength m) ms)"

text \<open>What one round of the collecting loop adds.\<close>

definition found_of :: "nat \<Rightarrow> exec_result \<Rightarrow> match_info list" where
  "found_of patternIndex m =
     (let matchText = (if patternIndex = 4 then groups m ! 1 else groups m ! 0);
          matchIndex = (if patternIndex = 4 then match_index m + length (groups m ! 0)
                        else match_index m)
      in if matchText \<noteq> [] \<and> trim matchText \<noteq> []
         then [\<lparr>match = matchText, index = matchIndex, mlength = length matchText\<rparr>]
         else [])"

text \<open>Scenario 1 of the specification.\<close>

definition scenario1 :: string where
  "scenario1 = ''obj.method() returned offset(x+1)'' @ [CHR 0x60] @ ''123a''"

text \<open>The raw matches of the pattern at index \<open>i\<close> (family \<open>i + 1\<close> of the specification).\<close>

definition family :: "string \<Rightarrow> nat \<Rightarrow> match_info list option" where
  "family text i = collect i (patterns ! i) text 0"

text \<open>Two texts on which families tie at an offset.\<close>

definition braces :: string where
  "braces = ''{y->z}''"

definition offset_x :: string where
  "offset_x = ''offset(x)''"

text \<open>
  \<open>bare_run t s e\<close>: the characters of \<open>t\<close> from \<open>s\<close> up to \<open>e\<close> are a run of letters,
  digits and underscores that does not start with a digit, bounded on each side by the
  end of the text or by a character that is neither an identifier character nor a dot.
\<close>

definition bare_run :: "string \<Rightarrow> nat \<Rightarrow> nat \<Rightarrow> bool" where
  "bare_run t s e =
     (s < e \<and> e \<le> length t \<and> ident_start (t ! s) \<and> list_all ident_char (slice t s e) \<and>
      (s = 0 \<or> boundary_char (t ! (s - 1))) \<and> (e = length t \<or> boundary_char (t ! e)))"

text \<open>A text of three bare identifiers separated by single spaces.\<close>

definition a_b_c :: string where
  "a_b_c = ''a b c''"

section \<open>The tabular engine\<close>

text \<open>
  Modelled from the spec: the generic table store (\<open>tableStore.ts\<close>: \<open>TableStore\<close>,
  \<open>Column\<close>, \<open>toggleSort\<close>, the sorted and filtered groups, the rows) is not among
  the sources; only its subclass \<open>StatesTableStore\<close> and a test are. A column is a name,
  a default width and an accessor; the view state is the column list, the active sort
  column, the direction and the filter predicate.
\<close>

datatype sort_dir = Asc | Desc

record 'e column =
  name :: string
  defaultWidth :: nat
  accessor :: "'e \<Rightarrow> string"

record 'e table_store =
  columns :: "'e column list"
  sortColumn :: string
  sortDir :: sort_dir
  filter_pred :: "'e \<Rightarrow> bool"

text \<open>
  Modelled from the spec: \<open>toggleSort\<close> flips the direction when the named column is
  already the active sort column, and otherwise makes it active with ascending direction.
\<close>

definition toggleSort :: "string \<Rightarrow> 'e table_store \<Rightarrow> 'e table_store" where
  "toggleSort columnName st =
     (if sortColumn st = columnName
      then st\<lparr>sortDir := (case sortDir st of Asc \<Rightarrow> Desc | Desc \<Rightarrow> Asc)\<rparr>
      else st\<lparr>sortColumn := columnName, sortDir := Asc\<rparr>)"

text \<open>
  Modelled from the spec: within a group the entities are sorted by the active column's
  accessor (strings in their total order), ascending or the reverse of it.
\<close>

definition sort_items :: "'e table_store \<Rightarrow> 'e list \<Rightarrow> 'e list" where
  "sort_items st items =
     (case find (\<lambda>c. name c = sortColumn st) (columns st) of
        None \<Rightarrow> items
      | Some c \<Rightarrow> (case sortDir st of
                     Asc \<Rightarrow> sort_key (accessor c) items
                   | Desc \<Rightarrow> rev (sort_key (accessor c) items)))"

text \<open>
  Modelled from the spec: \<open>sortedFilteredGroups\<close> partitions the entities by group key
  in first-seen order, filters within each group and sorts within each group.
  (\<open>remdups\<close> keeps the last occurrence of each key, so the first-seen order is obtained
  on the reversed list.)
\<close>

definition sortedFilteredGroups ::
  "('e \<Rightarrow> 'g option) \<Rightarrow> 'e table_store \<Rightarrow> 'e list \<Rightarrow> ('g option \<times> 'e list) list" where
  "sortedFilteredGroups groupOf st entities =
     map (\<lambda>k. (k, sort_items st (filter (\<lambda>e. groupOf e = k \<and> filter_pred st e) entities)))
         (rev (remdups (rev (map groupOf entities))))"

text \<open>
  The states table (\<open>statesTableStore.ts\<close>): columns Key and Value, sorted by Key at
  first, no filter, no grouping, and rows without group headers. The direction at
  construction is the table store's default, which the test of the states table
  expects to be ascending.
\<close>

record state_entry =
  key :: string
  "value" :: string

definition statesColumns :: "state_entry column list" where
  "statesColumns =
     [\<lparr>name = ''Key'', defaultWidth = 150, accessor = key\<rparr>,
      \<lparr>name = ''Value'', defaultWidth = 200, accessor = value\<rparr>]"

definition statesTableStore :: "state_entry table_store" where
  "statesTableStore =
     \<lparr>columns = statesColumns, sortColumn = name (statesColumns ! 0), sortDir = Asc,
      filter_pred = (\<lambda>_. True)\<rparr>"

definition rows :: "state_entry table_store \<Rightarrow> state_entry list \<Rightarrow> state_entry list" where
  "rows st results = concat (map snd (sortedFilteredGroups (\<lambda>_. None :: unit option) st results))"

text \<open>Two states whose keys ascend and whose values ascend.\<close>

definition two_states :: "state_entry list" where
  "two_states = [\<lparr>key = ''a'', value = ''1''\<rparr>, \<lparr>key = ''b'', value = ''2''\<rparr>]"

section \<open>Properties of the navigation queries\<close>

lemma at_nat: "i < length xs \<Longrightarrow> at xs (int i) = Some (xs ! i)"
  by (simp add: at_def)

lemma at_out: "\<not> i < length xs \<Longrightarrow> at xs (int i) = None"
  by (simp add: at_def)

lemma hasValidState_defined: "\<exists>b. hasValidState (Some s) = Inr b"
  by (cases "state s") (auto simp add: hasValidState_def)

lemma getVariableValue_defined: "\<exists>r. getVariableValue (Some s) variable = Inr r"
  by (cases "state s"; cases "property_read (the (state s)) variable")
    (auto simp add: getVariableValue_def)

text \<open>
  For a variable that is not named like a member of \<open>Object.prototype\<close>,
  \<open>getVariableValue\<close> gives a value exactly where the state has an entry for it; for a
  variable that is, it gives a value at every step that has a state.
\<close>

lemma getVariableValue_own:
  "map_of object_prototype variable = None \<Longrightarrow>
   getVariableValue (Some s) variable
     = (case own_entry s variable of
          None \<Rightarrow> Inr None
        | Some v \<Rightarrow> Inr (Some (processValue variable v)))"
  by (cases "state s"; cases "map_of (the (state s)) variable")
    (auto simp add: getVariableValue_def own_entry_def property_read_def)

lemma getVariableValue_inherited:
  "state s = Some st \<Longrightarrow> map_of st variable = None \<Longrightarrow>
   map_of object_prototype variable = Some v \<Longrightarrow>
   getVariableValue (Some s) variable = Inr (Some (processValue variable v))"
  by (simp add: getVariableValue_def property_read_def)

lemma findIndex_range: "findIndex P xs = - 1 \<or> (0 \<le> findIndex P xs \<and> findIndex P xs < int (length xs))"
  by (induction xs) (auto simp: Let_def)

lemma getCurrentStepIndex_range:
  "getCurrentStepIndex tfls selected = - 1 \<or>
   (0 \<le> getCurrentStepIndex tfls selected \<and> getCurrentStepIndex tfls selected < int (length tfls))"
  unfolding getCurrentStepIndex_def by (rule findIndex_range)

lemma prevLoop_char:
  "k \<le> length tfls \<Longrightarrow>
   (\<exists>j. prevLoop tfls variable v k = Inr (Some j) \<and> j < k \<and> differs_at tfls variable v j \<and>
        (\<forall>i. j < i \<and> i < k \<longrightarrow> \<not> differs_at tfls variable v i)) \<or>
   (prevLoop tfls variable v k = Inr None \<and> (\<forall>i < k. \<not> differs_at tfls variable v i))"
proof (induction k)
  case 0
  then show ?case by simp
next
  case (Suc k)
  then have k: "k < length tfls" and IH:
    "(\<exists>j. prevLoop tfls variable v k = Inr (Some j) \<and> j < k \<and> differs_at tfls variable v j \<and>
        (\<forall>i. j < i \<and> i < k \<longrightarrow> \<not> differs_at tfls variable v i)) \<or>
     (prevLoop tfls variable v k = Inr None \<and> (\<forall>i < k. \<not> differs_at tfls variable v i))"
    by simp_all
  obtain b where b: "hasValidState (at tfls (int k)) = Inr b"
    using hasValidState_defined at_nat [OF k] by metis
  obtain r where r: "getVariableValue (at tfls (int k)) variable = Inr r"
    using getVariableValue_defined at_nat [OF k] by metis
  show ?case
  proof (cases "differs_at tfls variable v k")
    case True
    then have "prevLoop tfls variable v (Suc k) = Inr (Some k)"
      using b r by (auto simp: differs_at_def split: option.splits)
    with True show ?thesis by auto
  next
    case False
    then have eq: "prevLoop tfls variable v (Suc k) = prevLoop tfls variable v k"
      using b r by (auto simp: differs_at_def split: option.splits)
    have step: "\<And>i. i < Suc k \<Longrightarrow> \<not> i < k \<Longrightarrow> i = k" by simp
    from IH show ?thesis
    proof
      assume "\<exists>j. prevLoop tfls variable v k = Inr (Some j) \<and> j < k \<and> differs_at tfls variable v j \<and>
        (\<forall>i. j < i \<and> i < k \<longrightarrow> \<not> differs_at tfls variable v i)"
      then obtain j where j: "prevLoop tfls variable v k = Inr (Some j)" "j < k"
        "differs_at tfls variable v j" "\<forall>i. j < i \<and> i < k \<longrightarrow> \<not> differs_at tfls variable v i"
        by blast
      have "\<forall>i. j < i \<and> i < Suc k \<longrightarrow> \<not> differs_at tfls variable v i"
        using j(4) False step by blast
      with j eq show ?thesis by auto
    next
      assume a: "prevLoop tfls variable v k = Inr None \<and> (\<forall>i < k. \<not> differs_at tfls variable v i)"
      then have "\<forall>i < Suc k. \<not> differs_at tfls variable v i"
        using False step by blast
      with a eq show ?thesis by simp
    qed
  qed
qed

lemma nextLoop_char:
  "(\<exists>j. nextLoop tfls variable v i = Inr (Some j) \<and> i \<le> j \<and> j < length tfls \<and>
        differs_at tfls variable v j \<and>
        (\<forall>m. i \<le> m \<and> m < j \<longrightarrow> \<not> differs_at tfls variable v m)) \<or>
   (nextLoop tfls variable v i = Inr None \<and>
        (\<forall>m. i \<le> m \<and> m < length tfls \<longrightarrow> \<not> differs_at tfls variable v m))"
proof (induction "length tfls - i" arbitrary: i)
  case 0
  then have "\<not> i < length tfls" by simp
  then show ?case by (auto simp add: nextLoop.simps)
next
  case (Suc n)
  then have i: "i < length tfls" and n: "n = length tfls - Suc i" by simp_all
  note IH = Suc.hyps(1) [OF n]
  obtain b where b: "hasValidState (at tfls (int i)) = Inr b"
    using hasValidState_defined at_nat [OF i] by metis
  obtain r where r: "getVariableValue (at tfls (int i)) variable = Inr r"
    using getVariableValue_defined at_nat [OF i] by metis
  show ?case
  proof (cases "differs_at tfls variable v i")
    case True
    then have "nextLoop tfls variable v i = Inr (Some i)"
      using b r i by (subst nextLoop.simps) (auto simp: differs_at_def split: option.splits)
    with True i show ?thesis by auto
  next
    case False
    then have eq: "nextLoop tfls variable v i = nextLoop tfls variable v (Suc i)"
      using b r i by (subst nextLoop.simps) (auto simp: differs_at_def split: option.splits)
    have step: "\<And>m. i \<le> m \<Longrightarrow> \<not> Suc i \<le> m \<Longrightarrow> m = i" by simp
    from IH show ?thesis
    proof
      assume "\<exists>j. nextLoop tfls variable v (Suc i) = Inr (Some j) \<and> Suc i \<le> j \<and> j < length tfls \<and>
        differs_at tfls variable v j \<and>
        (\<forall>m. Suc i \<le> m \<and> m < j \<longrightarrow> \<not> differs_at tfls variable v m)"
      then obtain j where j: "nextLoop tfls variable v (Suc i) = Inr (Some j)" "Suc i \<le> j"
        "j < length tfls" "differs_at tfls variable v j"
        "\<forall>m. Suc i \<le> m \<and> m < j \<longrightarrow> \<not> differs_at tfls variable v m"
        by blast
      have "\<forall>m. i \<le> m \<and> m < j \<longrightarrow> \<not> differs_at tfls variable v m"
        using j(5) False step by blast
      moreover have "i \<le> j" using j(2) by simp
      ultimately show ?thesis using j eq by auto
    next
      assume a: "nextLoop tfls variable v (Suc i) = Inr None \<and>
        (\<forall>m. Suc i \<le> m \<and> m < length tfls \<longrightarrow> \<not> differs_at tfls variable v m)"
      then have "\<forall>m. i \<le> m \<and> m < length tfls \<longrightarrow> \<not> differs_at tfls variable v m"
        using False step by blast
      with a eq show ?thesis by simp
    qed
  qed
qed

lemma lastLoop_char:
  "k \<le> length tfls \<Longrightarrow>
   (\<exists>j. lastLoop tfls variable v k = Inr (Some (Suc j)) \<and> j < k \<and> last_target tfls variable v j \<and>
        (\<forall>i. j < i \<and> i < k \<longrightarrow> \<not> last_target tfls variable v i)) \<or>
   (lastLoop tfls variable v k = Inr None \<and> (\<forall>i < k. \<not> last_target tfls variable v i))"
proof (induction k)
  case 0
  then show ?case by simp
next
  case (Suc k)
  then have k: "k < length tfls" and IH:
    "(\<exists>j. lastLoop tfls variable v k = Inr (Some (Suc j)) \<and> j < k \<and> last_target tfls variable v j \<and>
        (\<forall>i. j < i \<and> i < k \<longrightarrow> \<not> last_target tfls variable v i)) \<or>
     (lastLoop tfls variable v k = Inr None \<and> (\<forall>i < k. \<not> last_target tfls variable v i))"
    by simp_all
  obtain b where b: "hasValidState (at tfls (int k)) = Inr b"
    using hasValidState_defined at_nat [OF k] by metis
  obtain r where r: "getVariableValue (at tfls (int k)) variable = Inr r"
    using getVariableValue_defined at_nat [OF k] by metis
  have b': "Suc k < length tfls \<Longrightarrow> \<exists>c. hasValidState (at tfls (int (Suc k))) = Inr c"
    using hasValidState_defined at_nat [of "Suc k" tfls] by metis
  show ?case
  proof (cases "last_target tfls variable v k")
    case True
    then have "lastLoop tfls variable v (Suc k) = Inr (Some (Suc k))"
      using b r by (auto simp: last_target_def differs_at_def split: option.splits)
    with True show ?thesis by auto
  next
    case False
    then have eq: "lastLoop tfls variable v (Suc k) = lastLoop tfls variable v k"
      using b r b' by (auto simp: last_target_def differs_at_def split: option.splits)
    have step: "\<And>i. i < Suc k \<Longrightarrow> \<not> i < k \<Longrightarrow> i = k" by simp
    from IH show ?thesis
    proof
      assume "\<exists>j. lastLoop tfls variable v k = Inr (Some (Suc j)) \<and> j < k \<and> last_target tfls variable v j \<and>
        (\<forall>i. j < i \<and> i < k \<longrightarrow> \<not> last_target tfls variable v i)"
      then obtain j where j: "lastLoop tfls variable v k = Inr (Some (Suc j))" "j < k"
        "last_target tfls variable v j" "\<forall>i. j < i \<and> i < k \<longrightarrow> \<not> last_target tfls variable v i"
        by blast
      have "\<forall>i. j < i \<and> i < Suc k \<longrightarrow> \<not> last_target tfls variable v i"
        using j(4) False step by blast
      with j eq show ?thesis by auto
    next
      assume a: "lastLoop tfls variable v k = Inr None \<and> (\<forall>i < k. \<not> last_target tfls variable v i)"
      then have "\<forall>i < Suc k. \<not> last_target tfls variable v i"
        using False step by blast
      with a eq show ?thesis by simp
    qed
  qed
qed

lemma initLoop_defined: "\<exists>r. initLoop tfls variable i = Inr r"
proof (induction "length tfls - i" arbitrary: i)
  case 0
  then have "\<not> i < length tfls" by simp
  then show ?case by (simp add: initLoop.simps)
next
  case (Suc n)
  then have i: "i < length tfls" and n: "n = length tfls - Suc i" by simp_all
  note IH = Suc.hyps(1) [OF n]
  obtain b where b: "hasValidState (at tfls (int i)) = Inr b"
    using hasValidState_defined at_nat [OF i] by metis
  obtain r where r: "getVariableValue (at tfls (int i)) variable = Inr r"
    using getVariableValue_defined at_nat [OF i] by metis
  show ?case
    using b r i IH by (subst initLoop.simps) (auto split: option.splits)
qed

section \<open>Properties of the scanner\<close>

lemma rmatch_lower: "j \<in> set (rmatch r t i) \<Longrightarrow> i \<le> j"
proof (induction r t i arbitrary: j rule: rmatch.induct)
  case (5 a b t i)
  from 5(3) obtain m where m: "m \<in> set (rmatch a t i)" "j \<in> set (rmatch b t m)" by auto
  from 5(1) [OF m(1)] 5(2) [OF m] show ?case by simp
next
  case (6 a b t i)
  then show ?case by auto
next
  case (7 a t i)
  show ?case
  proof (cases "j = i")
    case False
    with 7(3) obtain m where m: "m \<in> set (rmatch a t i)" "i < m \<and> m \<le> length t"
      "j \<in> set (rmatch (Star a) t m)"
      by (subst (asm) rmatch.simps(7)) (auto split: if_splits)
    from 7(2) [OF m] m(2) show ?thesis by simp
  qed simp
next
  case (8 a t i)
  from 8(3) obtain m where m: "m \<in> set (rmatch a t i)" "j \<in> set (rmatch (Star a) t m)" by auto
  from 8(1) [OF m(1)] 8(2) [OF m] show ?case by simp
next
  case (9 a t i)
  then show ?case by auto
qed (auto split: if_splits)

lemma rmatch_upper: "j \<in> set (rmatch r t i) \<Longrightarrow> i \<le> length t \<Longrightarrow> j \<le> length t"
proof (induction r t i arbitrary: j rule: rmatch.induct)
  case (2 s t i)
  then have "take (length s) (drop i t) = s" "j = i + length s" by (auto split: if_splits)
  then have "length (take (length s) (drop i t)) = length s" by simp
  then have "length s \<le> length t - i" by simp
  with 2(2) \<open>j = i + length s\<close> show ?case by simp
next
  case (5 a b t i)
  from 5(3) obtain m where m: "m \<in> set (rmatch a t i)" "j \<in> set (rmatch b t m)" by auto
  from 5(1) [OF m(1) 5(4)] 5(2) [OF m] show ?case by simp
next
  case (6 a b t i)
  then show ?case by auto
next
  case (7 a t i)
  show ?case
  proof (cases "j = i")
    case False
    with 7(3) obtain m where m: "m \<in> set (rmatch a t i)" "i < m \<and> m \<le> length t"
      "j \<in> set (rmatch (Star a) t m)"
      by (subst (asm) rmatch.simps(7)) (auto split: if_splits)
    from 7(2) [OF m] m(2) show ?thesis by simp
  qed (use 7(4) in simp)
next
  case (8 a t i)
  from 8(3) obtain m where m: "m \<in> set (rmatch a t i)" "j \<in> set (rmatch (Star a) t m)" by auto
  from 8(1) [OF m(1) 8(4)] 8(2) [OF m] show ?case by simp
next
  case (9 a t i)
  then show ?case by auto
qed (auto split: if_splits)

lemma rmatch_consumes: "consumes r \<Longrightarrow> j \<in> set (rmatch r t i) \<Longrightarrow> i < j"
proof (induction r arbitrary: i j)
  case (Seq a b)
  from Seq.prems(2) obtain m where m: "m \<in> set (rmatch a t i)" "j \<in> set (rmatch b t m)"
    by auto
  have "i \<le> m" "m \<le> j" using m rmatch_lower by blast+
  moreover have "i < m \<or> m < j" using Seq.IH Seq.prems(1) m by auto
  ultimately show ?case by linarith
next
  case (Plus a)
  from Plus.prems(2) obtain m where m: "m \<in> set (rmatch a t i)" "j \<in> set (rmatch (Star a) t m)"
    by auto
  have "i < m" using Plus.IH Plus.prems(1) m by auto
  moreover have "m \<le> j" using m rmatch_lower by blast
  ultimately show ?case by linarith
qed (auto split: if_splits)

lemma length_slice: "b \<le> length t \<Longrightarrow> length (slice t a b) = b - a"
  by (auto simp: slice_def)

lemma slice_nonempty: "slice t a b \<noteq> [] \<Longrightarrow> a < b"
  by (cases "a < b") (auto simp: slice_def)

lemma exec_Some:
  "exec p t i = Some m \<Longrightarrow>
   \<exists>k. i \<le> k \<and> k \<le> length t \<and> outcomes p t k \<noteq> [] \<and> m = hd (outcomes p t k) \<and>
       (\<forall>k'. i \<le> k' \<and> k' < k \<longrightarrow> outcomes p t k' = [])"
proof (induction "Suc (length t) - i" arbitrary: i)
  case 0
  then show ?case by (simp add: exec.simps)
next
  case (Suc n)
  then have i: "i \<le> length t" and n: "n = Suc (length t) - Suc i" by simp_all
  show ?case
  proof (cases "outcomes p t i")
    case Nil
    then have "exec p t (Suc i) = Some m" using Suc.prems i by (simp add: exec.simps)
    from Suc.hyps(1) [OF n this] obtain k where k: "Suc i \<le> k" "k \<le> length t"
      "outcomes p t k \<noteq> []" "m = hd (outcomes p t k)"
      "\<forall>k'. Suc i \<le> k' \<and> k' < k \<longrightarrow> outcomes p t k' = []" by blast
    have "\<forall>k'. i \<le> k' \<and> k' < k \<longrightarrow> outcomes p t k' = []"
    proof (intro allI impI)
      fix k' assume "i \<le> k' \<and> k' < k"
      then show "outcomes p t k' = []" using k(5) Nil by (cases "k' = i") auto
    qed
    moreover have "i \<le> k" using k(1) by simp
    ultimately show ?thesis using k by blast
  next
    case (Cons x xs)
    then have "m = x" using Suc.prems i by (simp add: exec.simps)
    with Cons i show ?thesis by (intro exI [of _ i]) auto
  qed
qed

lemma exec_None:
  "exec p t i = None \<Longrightarrow> i \<le> k \<Longrightarrow> k \<le> length t \<Longrightarrow> outcomes p t k = []"
proof (induction "Suc (length t) - i" arbitrary: i)
  case 0
  then show ?case by simp
next
  case (Suc n)
  then have i: "i \<le> length t" and n: "n = Suc (length t) - Suc i" by simp_all
  have nil: "outcomes p t i = []" and nxt: "exec p t (Suc i) = None"
    using Suc.prems(1) i by (auto simp add: exec.simps [of p t i] split: list.splits)
  show ?case
  proof (cases "k = i")
    case True
    with nil show ?thesis by simp
  next
    case False
    with Suc.prems(2) have "Suc i \<le> k" by simp
    from Suc.hyps(1) [OF n nxt this Suc.prems(3)] show ?thesis .
  qed
qed

text \<open>The shape of one way of matching.\<close>

lemma outcomes_shape:
  assumes "m \<in> set (outcomes p t k)" and "k \<le> length t"
  shows "match_index m = k \<and> k \<le> end_index m \<and> end_index m \<le> length t \<and>
         (pattern_consumes p \<longrightarrow> k < end_index m) \<and>
         (case p of
            Whole r \<Rightarrow> groups m = [slice t k (end_index m)]
          | Delimited a b c \<Rightarrow>
              (\<exists>p1 p2. k \<le> p1 \<and> p1 \<le> p2 \<and> p2 \<le> end_index m \<and>
                 p1 \<in> set (rmatch a t k) \<and> p2 \<in> set (rmatch b t p1) \<and>
                 end_index m \<in> set (rmatch c t p2) \<and>
                 groups m = [slice t k p1, slice t p1 p2, slice t p2 (end_index m)]))"
proof (cases p)
  case (Whole r)
  with assms obtain e where e: "e \<in> set (rmatch r t k)"
    "m = \<lparr>match_index = k, groups = [slice t k e], end_index = e\<rparr>" by auto
  have "k \<le> e" "e \<le> length t" "consumes r \<longrightarrow> k < e"
    using e(1) assms(2) rmatch_lower rmatch_upper rmatch_consumes by blast+
  with e(2) Whole show ?thesis by simp
next
  case (Delimited a b c)
  with assms obtain p1 p2 p3 where
    ps: "p1 \<in> set (rmatch a t k)" "p2 \<in> set (rmatch b t p1)" "p3 \<in> set (rmatch c t p2)"
    and m: "m = \<lparr>match_index = k, groups = [slice t k p1, slice t p1 p2, slice t p2 p3],
                end_index = p3\<rparr>"
    by auto
  have le: "k \<le> p1" "p1 \<le> p2" "p2 \<le> p3" using ps rmatch_lower by blast+
  have "p1 \<le> length t" using ps(1) assms(2) rmatch_upper by blast
  then have "p2 \<le> length t" using ps(2) rmatch_upper by blast
  then have up: "p3 \<le> length t" using ps(3) rmatch_upper by blast
  have "consumes a \<longrightarrow> k < p1" "consumes b \<longrightarrow> p1 < p2" "consumes c \<longrightarrow> p2 < p3"
    using ps rmatch_consumes by blast+
  then have "pattern_consumes p \<longrightarrow> k < p3" using le Delimited by auto
  with le up ps m Delimited show ?thesis by auto
qed

lemma ordered_from_mono: "ordered_from e ms \<Longrightarrow> i \<le> e \<Longrightarrow> ordered_from i ms"
  by (cases ms) auto

lemma exec_shape:
  assumes "exec p t i = Some m"
  shows "i \<le> match_index m \<and> match_index m \<le> length t \<and>
         m \<in> set (outcomes p t (match_index m))"
proof -
  from exec_Some [OF assms] obtain k where k: "i \<le> k" "k \<le> length t"
    "outcomes p t k \<noteq> []" "m = hd (outcomes p t k)" by blast
  then have "m \<in> set (outcomes p t k)" by simp
  moreover from this k(2) have "match_index m = k" using outcomes_shape by blast
  ultimately show ?thesis using k by simp
qed

lemma collect_unfold:
  "collect patternIndex p t i =
     (case exec p t i of
        None \<Rightarrow> Some []
      | Some m \<Rightarrow> Option.bind (collect patternIndex p t (end_index m))
                    (\<lambda>rest. Some (found_of patternIndex m @ rest)))"
  by (subst collect.simps) (simp add: found_of_def Let_def split: option.splits)

lemma found_of_shape:
  assumes "well_indexed (patternIndex, p)" and "m \<in> set (outcomes p t k)" and "k \<le> length t"
  shows "list_all (wf_match t) (found_of patternIndex m) \<and>
         (\<forall>x \<in> set (found_of patternIndex m). k \<le> index x \<and> index x + mlength x \<le> end_index m)"
proof (cases p)
  case (Whole r)
  then have pi: "patternIndex \<noteq> 4" using assms(1) by simp
  from outcomes_shape [OF assms(2,3)] Whole
  have sh: "match_index m = k" "k \<le> end_index m" "end_index m \<le> length t"
    "groups m = [slice t k (end_index m)]" by simp_all
  have "length (slice t k (end_index m)) = end_index m - k" using sh(3) by (rule length_slice)
  then show ?thesis using pi sh
    by (auto simp: found_of_def Let_def wf_match_def dest: slice_nonempty)
next
  case (Delimited a b c)
  then have pi: "patternIndex = 4" using assms(1) by simp
  from outcomes_shape [OF assms(2,3)] Delimited
  obtain p1 p2 where sh: "match_index m = k" "end_index m \<le> length t"
    "k \<le> p1" "p1 \<le> p2" "p2 \<le> end_index m"
    "groups m = [slice t k p1, slice t p1 p2, slice t p2 (end_index m)]" by auto
  have "length (slice t k p1) = p1 - k" "length (slice t p1 p2) = p2 - p1"
    using sh by (simp_all add: length_slice)
  then show ?thesis using pi sh
    by (auto simp: found_of_def Let_def wf_match_def dest: slice_nonempty)
qed

lemma collect_total:
  assumes "well_indexed (patternIndex, p)" and "pattern_consumes p"
  shows "\<exists>ms. collect patternIndex p t i = Some ms \<and> list_all (wf_match t) ms \<and> ordered_from i ms"
proof (induction "Suc (length t) - i" arbitrary: i rule: less_induct)
  case less
  show ?case
  proof (cases "exec p t i")
    case None
    then show ?thesis by (subst collect_unfold) simp
  next
    case (Some m)
    define k where "k = match_index m"
    from exec_shape [OF Some] have k: "i \<le> k" "k \<le> length t" "m \<in> set (outcomes p t k)"
      by (simp_all add: k_def)
    from outcomes_shape [OF k(3,2)] assms(2)
    have e: "k < end_index m" "end_index m \<le> length t" by simp_all
    then have "Suc (length t) - end_index m < Suc (length t) - i" using k(1) by linarith
    from less [OF this] obtain rest where rest:
      "collect patternIndex p t (end_index m) = Some rest" "list_all (wf_match t) rest"
      "ordered_from (end_index m) rest" by blast
    from found_of_shape [OF assms(1) k(3,2)]
    have f: "list_all (wf_match t) (found_of patternIndex m)"
      "\<forall>x \<in> set (found_of patternIndex m). k \<le> index x \<and> index x + mlength x \<le> end_index m"
      by simp_all
    have eq: "collect patternIndex p t i = Some (found_of patternIndex m @ rest)"
      using Some rest(1) by (subst collect_unfold) simp
    have "ordered_from i (found_of patternIndex m @ rest)"
    proof (cases "found_of patternIndex m")
      case Nil
      then show ?thesis using rest(3) e k(1) by (simp add: ordered_from_mono)
    next
      case (Cons x xs)
      then have xs: "xs = []" by (auto simp: found_of_def Let_def split: if_splits)
      have "i \<le> index x" "index x + mlength x \<le> end_index m" using f(2) Cons k(1) by auto
      then show ?thesis using Cons xs rest(3) by (simp add: ordered_from_mono)
    qed
    with eq f(1) rest(2) show ?thesis by simp
  qed
qed

lemma patterns_ok:
  "\<forall>x \<in> set (enumerate 0 patterns). well_indexed x \<and> pattern_consumes (snd x)"
  by (simp add: patterns_def dot_chain_def arrow_chain_def offset_call_def brace_expr_def
      word_prefix_def word_body_def word_suffix_def ident_def subscript_def)

lemma collect_all_total:
  "\<forall>x \<in> set ps. well_indexed x \<and> pattern_consumes (snd x) \<Longrightarrow>
   \<exists>ms. collect_all ps t = Some ms \<and> list_all (wf_match t) ms"
proof (induction ps)
  case Nil
  then show ?case by simp
next
  case (Cons x ps)
  obtain patternIndex p where x: "x = (patternIndex, p)" by (cases x)
  from Cons.prems x have "well_indexed (patternIndex, p)" "pattern_consumes p" by simp_all
  from collect_total [OF this, of t 0] obtain ms where
    ms: "collect patternIndex p t 0 = Some ms" "list_all (wf_match t) ms" by blast
  from Cons obtain rest where rest: "collect_all ps t = Some rest" "list_all (wf_match t) rest"
    by auto
  show ?case using ms rest x by simp
qed

lemma raw_matches_total: "\<exists>ms. raw_matches t = Some ms \<and> list_all (wf_match t) ms"
  unfolding raw_matches_def using patterns_ok by (rule collect_all_total)

lemma ordered_from_snoc:
  "ordered_from e (u @ [c]) =
     (ordered_from e u \<and> (if u = [] then e \<le> index c
                          else index (last u) + mlength (last u) \<le> index c))"
  by (induction u arbitrary: e) auto

lemma remove_overlaps_ordered:
  "ordered_from 0 u \<Longrightarrow> ordered_from 0 (remove_overlaps u rest)"
  by (induction rest arbitrary: u) (auto simp: ordered_from_snoc)

lemma remove_overlaps_set: "set (remove_overlaps u rest) \<subseteq> set u \<union> set rest"
proof (induction rest arbitrary: u)
  case Nil
  then show ?case by simp
next
  case (Cons c rest)
  have "set (remove_overlaps (u @ [c]) rest) \<subseteq> set (u @ [c]) \<union> set rest"
    and "set (remove_overlaps u rest) \<subseteq> set u \<union> set rest"
    by (rule Cons.IH)+
  then show ?case by auto
qed

lemma ordered_from_sorted_wrt:
  "ordered_from e ms \<Longrightarrow> list_all (\<lambda>m. 0 < mlength m) ms \<Longrightarrow>
   sorted_wrt (\<lambda>a b. index a + mlength a \<le> index b \<and> index a < index b) ms \<and>
   (\<forall>m \<in> set ms. e \<le> index m)"
proof (induction ms arbitrary: e)
  case Nil
  then show ?case by simp
next
  case (Cons m ms)
  then have "sorted_wrt (\<lambda>a b. index a + mlength a \<le> index b \<and> index a < index b) ms"
    and "\<forall>x \<in> set ms. index m + mlength m \<le> index x" by auto
  moreover have "0 < mlength m" "e \<le> index m" using Cons.prems by simp_all
  ultimately show ?case by fastforce
qed

lemma substring_slice: "a \<le> b \<Longrightarrow> b \<le> length t \<Longrightarrow> substring t a b = slice t a b"
  by (simp add: substring_def Let_def min_def max_def)

lemma slice_append_drop: "a \<le> b \<Longrightarrow> slice t a b @ drop b t = drop a t"
proof -
  assume "a \<le> b"
  then have "drop b t = drop (b - a) (drop a t)" by simp
  then show ?thesis unfolding slice_def by (metis append_take_drop_id)
qed

lemma build_parts_concat:
  "ordered_from e ms \<Longrightarrow> list_all (wf_match t) ms \<Longrightarrow> e \<le> length t \<Longrightarrow>
   concat (map part_text (build_parts t e ms)) = drop e t"
proof (induction ms arbitrary: e)
  case Nil
  then show ?case by (auto simp: substring_slice slice_def)
next
  case (Cons m ms)
  then have o: "e \<le> index m" "ordered_from (index m + mlength m) ms"
    and ws: "list_all (wf_match t) ms" and "wf_match t m"
    by simp_all
  then have w: "match m = slice t (index m) (index m + mlength m)" "index m + mlength m \<le> length t"
    by (simp_all add: wf_match_def)
  from Cons.IH [OF o(2) ws w(2)]
  have rest: "concat (map part_text (build_parts t (index m + mlength m) ms)) = drop (index m + mlength m) t" .
  have tok: "match m @ drop (index m + mlength m) t = drop (index m) t"
    unfolding w(1) by (rule slice_append_drop) simp
  have gap: "(if index m > e then substring t e (index m) else []) @ drop (index m) t = drop e t"
  proof (cases "index m > e")
    case True
    then have "substring t e (index m) = slice t e (index m)" using w(2) by (simp add: substring_slice)
    then show ?thesis using True by (simp add: slice_append_drop)
  next
    case False
    then have "index m = e" using o(1) by simp
    then show ?thesis by simp
  qed
  show ?case using rest tok gap by (simp split: if_splits)
qed

section \<open>Properties of the tabular engine\<close>

lemma rows_default: "rows statesTableStore two_states = two_states"
  by code_simp

lemma rows_value_twice: "rows (toggleSort ''Value'' (toggleSort ''Value'' statesTableStore)) two_states = rev two_states"
  by code_simp

lemma scenario1_kept:
  "unique_matches scenario1 =
     Some [\<lparr>match = ''obj.method()'', index = 0, mlength = 12\<rparr>,
           \<lparr>match = ''returned'', index = 13, mlength = 8\<rparr>,
           \<lparr>match = ''offset(x+1)'' @ [CHR 0x60] @ ''123a'', index = 22, mlength = 16\<rparr>]"
  by code_simp

lemma remove_overlaps_first:
  assumes "\<forall>x \<in> set xs. 0 < mlength x" and "K \<in> set (remove_overlaps u xs)"
  shows "K \<in> set u \<or>
         (find (\<lambda>m. index m = index K) xs = Some K \<and>
          (u \<noteq> [] \<longrightarrow> index (last u) + mlength (last u) \<le> index K))"
  using assms
proof (induction xs arbitrary: u)
  case Nil
  then show ?case by simp
next
  case (Cons c rest)
  have pos: "0 < mlength c" and rest: "\<forall>x \<in> set rest. 0 < mlength x" using Cons.prems(1) by simp_all
  show ?case
  proof (cases "u = [] \<or> index c \<ge> index (last u) + mlength (last u)")
    case True
    then have "K \<in> set (remove_overlaps (u @ [c]) rest)" using Cons.prems(2) by simp
    from Cons.IH [OF rest this]
    have "K \<in> set u \<or> K = c \<or>
      (find (\<lambda>m. index m = index K) rest = Some K \<and> index c + mlength c \<le> index K)"
      by auto
    then show ?thesis
    proof (elim disjE)
      assume "K \<in> set u" then show ?thesis by simp
    next
      assume "K = c" then show ?thesis using True by auto
    next
      assume a: "find (\<lambda>m. index m = index K) rest = Some K \<and> index c + mlength c \<le> index K"
      then have "index c < index K" using pos by linarith
      then show ?thesis using a True by auto
    qed
  next
    case False
    then have "K \<in> set (remove_overlaps u rest)" using Cons.prems(2) by simp
    from Cons.IH [OF rest this] False show ?thesis by auto
  qed
qed

lemma find_filter: "find P xs = (case filter P xs of [] \<Rightarrow> None | x # _ \<Rightarrow> Some x)"
  by (induction xs) auto

lemma find_sort_key_stable:
  "find (\<lambda>m. f m = k) (sort_key f xs) = find (\<lambda>m. f m = k) xs"
  by (simp add: find_filter sort_key_stable)

lemma find_append:
  "find P (xs @ ys) = (case find P xs of None \<Rightarrow> find P ys | Some x \<Rightarrow> Some x)"
  by (induction xs) auto

lemma find_Some_mem: "find P xs = Some x \<Longrightarrow> x \<in> set xs \<and> P x"
  by (induction xs) (auto split: if_splits)

lemma find_None_mem: "find P xs = None \<Longrightarrow> x \<in> set xs \<Longrightarrow> \<not> P x"
  by (induction xs) (auto split: if_splits)

lemma find_concat_family:
  "find P (concat fams) = Some K \<Longrightarrow> i < length fams \<Longrightarrow> A \<in> set (fams ! i) \<Longrightarrow> P A \<Longrightarrow>
   \<exists>i'. i' \<le> i \<and> K \<in> set (fams ! i')"
proof (induction fams arbitrary: i)
  case Nil
  then show ?case by simp
next
  case (Cons f fams)
  show ?case
  proof (cases "find P f")
    case (Some x)
    then have "K \<in> set f" using Cons.prems(1) find_Some_mem [of P f x] by (simp add: find_append)
    then show ?thesis by (intro exI [of _ 0]) simp
  next
    case None
    then have r: "find P (concat fams) = Some K" using Cons.prems(1) by (simp add: find_append)
    have "i \<noteq> 0" using None Cons.prems(3,4) find_None_mem [of P f A] by (cases i) auto
    then obtain j where j: "i = Suc j" by (cases i) auto
    with Cons.prems have "j < length fams" "A \<in> set (fams ! j)" by simp_all
    from Cons.IH [OF r this Cons.prems(4)] obtain i' where "i' \<le> j" "K \<in> set (fams ! i')" by blast
    then show ?thesis using j by (intro exI [of _ "Suc i'"]) simp
  qed
qed

lemma collect_all_families:
  "collect_all (enumerate n ps) t = Some raw \<Longrightarrow>
   \<exists>fams. length fams = length ps \<and>
          (\<forall>i < length ps. collect (n + i) (ps ! i) t 0 = Some (fams ! i)) \<and> raw = concat fams"
proof (induction ps arbitrary: n raw)
  case Nil
  then show ?case by simp
next
  case (Cons p ps)
  from Cons.prems obtain ms rest where
    ms: "collect n p t 0 = Some ms" and rest: "collect_all (enumerate (Suc n) ps) t = Some rest"
    and raw: "raw = ms @ rest"
    by (auto simp: bind_eq_Some_conv)
  from Cons.IH [OF rest] obtain fams where fams: "length fams = length ps"
    "\<forall>i < length ps. collect (Suc n + i) (ps ! i) t 0 = Some (fams ! i)" "rest = concat fams"
    by blast
  have "\<forall>i < length (p # ps). collect (n + i) ((p # ps) ! i) t 0 = Some ((ms # fams) ! i)"
  proof (intro allI impI)
    fix i assume "i < length (p # ps)"
    then show "collect (n + i) ((p # ps) ! i) t 0 = Some ((ms # fams) ! i)"
      using ms fams(2) by (cases i) auto
  qed
  then show ?case using fams(1,3) raw by (intro exI [of _ "ms # fams"]) simp
qed

lemma raw_matches_families:
  "raw_matches t = Some raw \<Longrightarrow>
   \<exists>fams. length fams = length patterns \<and>
          (\<forall>i < length patterns. family t i = Some (fams ! i)) \<and> raw = concat fams"
  unfolding raw_matches_def family_def using collect_all_families [of 0 patterns t raw] by simp

lemma remove_overlaps_append:
  "remove_overlaps u (xs @ ys) = remove_overlaps (remove_overlaps u xs) ys"
  by (induction xs arbitrary: u) auto

lemma remove_overlaps_prefix: "\<exists>zs. remove_overlaps u xs = u @ zs"
proof (induction xs arbitrary: u)
  case Nil
  then show ?case by simp
next
  case (Cons c rest)
  from Cons.IH [of "u @ [c]"] Cons.IH [of u] show ?case by auto
qed

lemma remove_overlaps_keeps_first:
  assumes srt: "sorted (map index xs)"
    and fnd: "find (\<lambda>m. index m = k) xs = Some A"
    and fits: "\<forall>K \<in> set (remove_overlaps [] xs). index K < k \<longrightarrow> index K + mlength K \<le> k"
  shows "A \<in> set (remove_overlaps [] xs)"
proof -
  from fnd obtain i where i: "i < length xs" "index (xs ! i) = k" "A = xs ! i"
    "\<forall>j < i. index (xs ! j) \<noteq> k"
    by (auto simp: find_Some_iff)
  define pre where "pre = take i xs"
  define post where "post = drop (Suc i) xs"
  have xs: "xs = pre @ A # post" using i(1,3) by (simp add: pre_def post_def id_take_nth_drop)
  have k: "index A = k" using i by simp
  have pre_lt: "\<forall>x \<in> set pre. index x < k"
  proof
    fix x assume x: "x \<in> set pre"
    then obtain j where j: "j < i" "x = xs ! j"
      using i(1) by (auto simp: pre_def in_set_conv_nth)
    have "index x \<le> index A" using srt xs x by (auto simp: sorted_append)
    moreover have "index x \<noteq> k" using i(4) j by simp
    ultimately show "index x < k" using k by simp
  qed
  define u where "u = remove_overlaps [] pre"
  have kept: "remove_overlaps [] xs = remove_overlaps u (A # post)"
    unfolding xs u_def by (rule remove_overlaps_append)
  obtain zs where zs: "remove_overlaps u (A # post) = u @ zs"
    using remove_overlaps_prefix by blast
  have u_pre: "set u \<subseteq> set pre" using remove_overlaps_set [of "[]" pre] by (simp add: u_def)
  have fit: "u = [] \<or> index A \<ge> index (last u) + mlength (last u)"
  proof (cases "u = []")
    case False
    then have l: "last u \<in> set u" by simp
    then have "last u \<in> set (remove_overlaps [] xs)" using kept zs by simp
    moreover have "index (last u) < k" using l u_pre pre_lt by blast
    ultimately show ?thesis using fits k by auto
  qed simp
  then have "remove_overlaps u (A # post) = remove_overlaps (u @ [A]) post" by auto
  moreover obtain ys where "remove_overlaps (u @ [A]) post = (u @ [A]) @ ys"
    using remove_overlaps_prefix by blast
  ultimately show ?thesis using kept by simp
qed

lemma sorted_wrt_distinct_index:
  "sorted_wrt (\<lambda>a b. index a + mlength a \<le> index b \<and> index a < index b) ms \<Longrightarrow>
   distinct (map index ms)"
  by (induction ms) auto

lemma braces_family_1:
  "family braces 1 = Some [\<lparr>match = ''y->z'', index = 1, mlength = 4\<rparr>]"
  by (simp add: family_def patterns_def) code_simp

lemma braces_family_4:
  "family braces 4 = Some [\<lparr>match = ''y'', index = 1, mlength = 1\<rparr>,
                          \<lparr>match = ''z'', index = 4, mlength = 1\<rparr>]"
  by (simp add: family_def patterns_def) code_simp

lemma braces_kept:
  "unique_matches braces = Some [\<lparr>match = ''{y->z}'', index = 0, mlength = 6\<rparr>]"
  by code_simp

lemma offset_x_raw:
  "raw_matches offset_x =
     Some [\<lparr>match = ''offset(x)'', index = 0, mlength = 9\<rparr>,
           \<lparr>match = ''offset'', index = 0, mlength = 6\<rparr>]"
  by code_simp

lemma offset_x_kept:
  "unique_matches offset_x = Some [\<lparr>match = ''offset(x)'', index = 0, mlength = 9\<rparr>]"
  by code_simp

lemma offset_x_family_4:
  "family offset_x 4 = Some [\<lparr>match = ''offset'', index = 0, mlength = 6\<rparr>]"
  by (simp add: family_def patterns_def) code_simp

lemmas offset_x_matches = offset_x_raw offset_x_kept offset_x_family_4

section \<open>Properties of the bare-identifier pattern\<close>

lemma ident_start_char: "ident_start c \<Longrightarrow> ident_char c"
  by (auto simp: ident_start_def ident_char_def)

lemma ident_not_boundary: "ident_char c \<Longrightarrow> \<not> boundary_char c"
  by (simp add: boundary_char_def)

lemma digit_ident: "is_digit c \<Longrightarrow> ident_char c"
  by (simp add: ident_char_def)

lemma lower_ident: "is_lower c \<Longrightarrow> ident_char c"
  by (simp add: ident_char_def)

lemma ident_start_not_digit: "ident_start c \<Longrightarrow> \<not> is_digit c"
  by (auto simp: ident_start_def is_digit_def is_lower_def is_upper_def less_eq_char_def)

lemma ident_start_not_space: "ident_start c \<Longrightarrow> \<not> is_white_space c"
  by (auto simp: ident_start_def is_white_space_def is_lower_def is_upper_def less_eq_char_def)

lemma backtick_not_ident: "\<not> ident_char (CHR 0x60)"
  by (simp add: ident_char_def is_lower_def is_upper_def is_digit_def less_eq_char_def)

lemma rmatch_Lit1:
  "rmatch (Lit [c]) t i = (if i < length t \<and> t ! i = c then [Suc i] else [])"
proof (cases "i < length t")
  case True
  then have "take 1 (drop i t) = [t ! i]" by (simp add: take_Suc_conv_app_nth drop_Suc Cons_nth_drop_Suc [symmetric])
  then show ?thesis using True by auto
next
  case False
  then show ?thesis by simp
qed

lemma rmatch_Star_Cls:
  "rmatch (Star (Cls P)) t i =
     (if i < length t \<and> P (t ! i) then rmatch (Star (Cls P)) t (Suc i) else []) @ [i]"
  by (subst rmatch.simps(7)) auto

lemma Star_Cls_sound:
  "j \<in> set (rmatch (Star (Cls P)) t i) \<Longrightarrow>
   i \<le> j \<and> (\<forall>k. i \<le> k \<and> k < j \<longrightarrow> k < length t \<and> P (t ! k))"
proof (induction "length t - i" arbitrary: i)
  case 0
  then show ?case by (subst (asm) rmatch_Star_Cls) auto
next
  case (Suc n)
  then have n: "n = length t - Suc i" by simp
  show ?case
  proof (cases "j = i")
    case True
    then show ?thesis by auto
  next
    case False
    with Suc.prems have a: "i < length t \<and> P (t ! i)" "j \<in> set (rmatch (Star (Cls P)) t (Suc i))"
      by (subst (asm) rmatch_Star_Cls; simp split: if_splits)+
    from Suc.hyps(1) [OF n a(2)]
    have "Suc i \<le> j" "\<forall>k. Suc i \<le> k \<and> k < j \<longrightarrow> k < length t \<and> P (t ! k)" by simp_all
    moreover have "\<And>k. i \<le> k \<Longrightarrow> \<not> Suc i \<le> k \<Longrightarrow> k = i" by simp
    ultimately show ?thesis using a(1) by (metis Suc_leD)
  qed
qed

lemma Star_Cls_complete:
  "i \<le> j \<Longrightarrow> j \<le> length t \<Longrightarrow> (\<forall>k. i \<le> k \<and> k < j \<longrightarrow> P (t ! k)) \<Longrightarrow>
   j \<in> set (rmatch (Star (Cls P)) t i)"
proof (induction "j - i" arbitrary: i)
  case 0
  then have "j = i" by simp
  then show ?case by (subst rmatch_Star_Cls) simp
next
  case (Suc n)
  then have "n = j - Suc i" "Suc i \<le> j" "i < length t" "P (t ! i)" by simp_all
  moreover from Suc.prems(3) have "\<forall>k. Suc i \<le> k \<and> k < j \<longrightarrow> P (t ! k)" by simp
  ultimately have "j \<in> set (rmatch (Star (Cls P)) t (Suc i))" using Suc.hyps(1) Suc.prems(2) by blast
  then show ?case using \<open>i < length t\<close> \<open>P (t ! i)\<close> by (subst rmatch_Star_Cls) simp
qed

lemma Plus_Cls_sound:
  "j \<in> set (rmatch (Plus (Cls P)) t i) \<Longrightarrow>
   i < j \<and> (\<forall>k. i \<le> k \<and> k < j \<longrightarrow> k < length t \<and> P (t ! k))"
proof -
  assume "j \<in> set (rmatch (Plus (Cls P)) t i)"
  then have a: "i < length t \<and> P (t ! i)" "j \<in> set (rmatch (Star (Cls P)) t (Suc i))"
    by (simp_all split: if_splits)
  from Star_Cls_sound [OF a(2)]
  have "Suc i \<le> j" "\<forall>k. Suc i \<le> k \<and> k < j \<longrightarrow> k < length t \<and> P (t ! k)" by simp_all
  moreover have "\<And>k. i \<le> k \<Longrightarrow> \<not> Suc i \<le> k \<Longrightarrow> k = i" by simp
  ultimately show ?thesis using a(1) by (metis Suc_le_lessD)
qed

lemma ident_sound:
  "j \<in> set (rmatch ident t i) \<Longrightarrow>
   i < j \<and> i < length t \<and> ident_start (t ! i) \<and>
   (\<forall>k. i \<le> k \<and> k < j \<longrightarrow> k < length t \<and> ident_char (t ! k))"
proof -
  assume "j \<in> set (rmatch ident t i)"
  then have a: "i < length t \<and> ident_start (t ! i)" "j \<in> set (rmatch (Star (Cls ident_char)) t (Suc i))"
    by (simp_all add: ident_def split: if_splits)
  from Star_Cls_sound [OF a(2)]
  have "Suc i \<le> j" "\<forall>k. Suc i \<le> k \<and> k < j \<longrightarrow> k < length t \<and> ident_char (t ! k)" by simp_all
  moreover have "\<And>k. i \<le> k \<Longrightarrow> \<not> Suc i \<le> k \<Longrightarrow> k = i" by simp
  ultimately show ?thesis using a(1) ident_start_char by (metis Suc_le_lessD)
qed

lemma ident_complete:
  "i < j \<Longrightarrow> j \<le> length t \<Longrightarrow> ident_start (t ! i) \<Longrightarrow>
   (\<forall>k. i \<le> k \<and> k < j \<longrightarrow> ident_char (t ! k)) \<Longrightarrow> j \<in> set (rmatch ident t i)"
proof -
  assume a: "i < j" "j \<le> length t" "ident_start (t ! i)"
    "\<forall>k. i \<le> k \<and> k < j \<longrightarrow> ident_char (t ! k)"
  then have "j \<in> set (rmatch (Star (Cls ident_char)) t (Suc i))"
    by (intro Star_Cls_complete) auto
  then show ?thesis using a by (simp add: ident_def)
qed

lemma subscript_sound:
  "q \<in> set (rmatch subscript t j) \<Longrightarrow>
   q = j \<or> (j < length t \<and> t ! j = CHR 0x60 \<and> Suc j < q \<and> Suc j < length t \<and>
            is_digit (t ! Suc j) \<and> (\<forall>k. j < k \<and> k < q \<longrightarrow> k < length t \<and> ident_char (t ! k)))"
proof (cases "q = j")
  case False
  assume "q \<in> set (rmatch subscript t j)"
  with False have "q \<in> set (rmatch (Seq (Lit [CHR 0x60]) (Seq (Plus (Cls is_digit)) (Opt (Cls is_lower)))) t j)"
    unfolding subscript_def rmatch.simps(9) by simp
  then obtain m where m: "m \<in> set (rmatch (Lit [CHR 0x60]) t j)"
    "q \<in> set (rmatch (Seq (Plus (Cls is_digit)) (Opt (Cls is_lower))) t m)"
    unfolding rmatch.simps(5) by auto
  from m(1) have b: "j < length t \<and> t ! j = CHR 0x60" and mj: "m = Suc j"
    unfolding rmatch_Lit1 by (simp_all split: if_splits)
  from m(2) mj obtain d where d: "d \<in> set (rmatch (Plus (Cls is_digit)) t (Suc j))"
    and q: "q \<in> set (rmatch (Opt (Cls is_lower)) t d)"
    unfolding rmatch.simps(5) by auto
  from Plus_Cls_sound [OF d]
  have dd: "Suc j < d" "\<forall>k. Suc j \<le> k \<and> k < d \<longrightarrow> k < length t \<and> is_digit (t ! k)" by simp_all
  then have first: "Suc j < length t \<and> is_digit (t ! Suc j)" by auto
  from q have qq: "q = d \<or> (q = Suc d \<and> d < length t \<and> is_lower (t ! d))"
    by (auto split: if_splits)
  have "\<forall>k. j < k \<and> k < q \<longrightarrow> k < length t \<and> ident_char (t ! k)"
  proof (intro allI impI)
    fix k assume k: "j < k \<and> k < q"
    show "k < length t \<and> ident_char (t ! k)"
    proof (cases "k < d")
      case True
      then show ?thesis using dd(2) k digit_ident by auto
    next
      case False
      then have "k = d" "q = Suc d \<and> d < length t \<and> is_lower (t ! d)" using qq k by auto
      then show ?thesis using lower_ident by simp
    qed
  qed
  moreover have "Suc j < q" using dd(1) qq by auto
  ultimately show ?thesis using b first by blast
qed simp

lemma subscript_skip: "j \<in> set (rmatch subscript t j)"
  by (simp add: subscript_def del: rmatch.simps(5))

lemma word_prefix_sound:
  "p1 \<in> set (rmatch word_prefix t k) \<Longrightarrow>
   (p1 = k \<and> k = 0) \<or> (p1 = Suc k \<and> k < length t \<and> boundary_char (t ! k))"
  by (auto simp: word_prefix_def split: if_splits)

lemma word_suffix_sound:
  "p3 \<in> set (rmatch word_suffix t p2) \<Longrightarrow>
   (p3 = p2 \<and> p2 = length t) \<or> (p3 = Suc p2 \<and> p2 < length t \<and> boundary_char (t ! p2))"
  by (auto simp: word_suffix_def split: if_splits)

lemma word_body_sound:
  assumes "p2 \<in> set (rmatch word_body t p1)"
  shows "\<exists>j. p1 < j \<and> p1 < length t \<and> ident_start (t ! p1) \<and>
             (\<forall>k. p1 \<le> k \<and> k < j \<longrightarrow> k < length t \<and> ident_char (t ! k)) \<and>
             (p2 = j \<or> (j < length t \<and> t ! j = CHR 0x60 \<and> Suc j < p2 \<and> Suc j < length t \<and>
                is_digit (t ! Suc j) \<and> (\<forall>k. j < k \<and> k < p2 \<longrightarrow> k < length t \<and> ident_char (t ! k))))"
proof -
  from assms obtain j where j: "j \<in> set (rmatch ident t p1)" "p2 \<in> set (rmatch subscript t j)"
    by (auto simp: word_body_def)
  from ident_sound [OF j(1)] subscript_sound [OF j(2)] show ?thesis by blast
qed

declare outcomes.simps [simp del]

lemma trim_nonempty: "xs \<noteq> [] \<Longrightarrow> \<not> is_white_space (hd xs) \<Longrightarrow> trim xs \<noteq> []"
proof -
  assume a: "xs \<noteq> []" "\<not> is_white_space (hd xs)"
  then have "dropWhile is_white_space xs = xs" by (cases xs) simp_all
  moreover have "hd xs \<in> set (rev xs)" using a(1) by simp
  then have "dropWhile is_white_space (rev xs) \<noteq> []" using a(2) by (auto simp: dropWhile_eq_Nil_conv)
  ultimately show ?thesis by (simp add: trim_def)
qed

lemma hd_slice: "a < b \<Longrightarrow> b \<le> length t \<Longrightarrow> hd (slice t a b) = t ! a"
  by (simp add: slice_def hd_drop_conv_nth)

lemma nth_slice: "i < b - a \<Longrightarrow> b \<le> length t \<Longrightarrow> slice t a b ! i = t ! (a + i)"
  by (simp add: slice_def)

lemma word_outcome:
  assumes "m \<in> set (outcomes (Delimited word_prefix word_body word_suffix) t k)" and "k \<le> length t"
  shows "\<exists>p1 p2. p1 \<in> set (rmatch word_prefix t k) \<and> p2 \<in> set (rmatch word_body t p1) \<and>
           end_index m \<in> set (rmatch word_suffix t p2) \<and>
           k \<le> p1 \<and> p1 < p2 \<and> p2 \<le> end_index m \<and> end_index m \<le> length t \<and>
           found_of 4 m = [\<lparr>match = slice t p1 p2, index = p1, mlength = p2 - p1\<rparr>]"
proof -
  from outcomes_shape [OF assms] obtain p1 p2 where sh:
    "match_index m = k" "end_index m \<le> length t" "k \<le> p1" "p1 \<le> p2" "p2 \<le> end_index m"
    "p1 \<in> set (rmatch word_prefix t k)" "p2 \<in> set (rmatch word_body t p1)"
    "end_index m \<in> set (rmatch word_suffix t p2)"
    "groups m = [slice t k p1, slice t p1 p2, slice t p2 (end_index m)]"
    by auto
  from word_body_sound [OF sh(7)] have st: "ident_start (t ! p1)" by blast
  have lt: "p1 < p2" using rmatch_consumes [OF _ sh(7)]
    by (simp add: word_body_def ident_def)
  have l1: "length (slice t k p1) = p1 - k" and l2: "length (slice t p1 p2) = p2 - p1"
    using sh by (simp_all add: length_slice)
  have ne: "slice t p1 p2 \<noteq> []" using l2 lt by auto
  have "hd (slice t p1 p2) = t ! p1" using lt sh by (simp add: hd_slice)
  then have "trim (slice t p1 p2) \<noteq> []" using ne st ident_start_not_space by (simp add: trim_nonempty)
  then have "found_of 4 m = [\<lparr>match = slice t p1 p2, index = p1, mlength = p2 - p1\<rparr>]"
    using ne sh l1 l2 by (simp add: found_of_def)
  with sh lt show ?thesis by blast
qed

lemma bare_run_chars:
  assumes "bare_run t s e"
  shows "s < e" "e \<le> length t" "ident_start (t ! s)"
    "\<And>k. s \<le> k \<Longrightarrow> k < e \<Longrightarrow> ident_char (t ! k)"
    "s = 0 \<or> boundary_char (t ! (s - 1))" "e = length t \<or> boundary_char (t ! e)"
proof -
  show b: "s < e" "e \<le> length t" "ident_start (t ! s)"
    "s = 0 \<or> boundary_char (t ! (s - 1))" "e = length t \<or> boundary_char (t ! e)"
    using assms by (simp_all add: bare_run_def)
  fix k assume k: "s \<le> k" "k < e"
  have "list_all ident_char (slice t s e)" using assms by (simp add: bare_run_def)
  moreover have "length (slice t s e) = e - s" using b(2) by (rule length_slice)
  ultimately have "ident_char (slice t s e ! (k - s))" using k by (simp add: list_all_length)
  then show "ident_char (t ! k)" using k b(2) by (simp add: nth_slice)
qed

text \<open>Where the search finds the run: at the run's start or at its left delimiter.\<close>

lemma run_outcomes_nonempty:
  assumes "bare_run t s e"
  shows "outcomes (Delimited word_prefix word_body word_suffix) t (s - 1) \<noteq> []"
proof -
  note r = bare_run_chars [OF assms]
  have p1: "s \<in> set (rmatch word_prefix t (s - 1))"
  proof (cases "s = 0")
    case True
    then show ?thesis by (simp add: word_prefix_def)
  next
    case False
    then have "s - 1 < length t" "boundary_char (t ! (s - 1))" "Suc (s - 1) = s"
      using r(1,2,5) by simp_all
    then show ?thesis by (simp add: word_prefix_def)
  qed
  have "e \<in> set (rmatch ident t s)" using r by (intro ident_complete) auto
  then have p2: "e \<in> set (rmatch word_body t s)"
    using subscript_skip [of e t] unfolding word_body_def rmatch.simps(5) by auto
  have "rmatch word_suffix t e \<noteq> []" using r(2,6) by (auto simp: word_suffix_def)
  then obtain p3 where p3: "p3 \<in> set (rmatch word_suffix t e)" by (cases "rmatch word_suffix t e") auto
  have "\<lparr>match_index = s - 1, groups = [slice t (s - 1) s, slice t s e, slice t e p3],
          end_index = p3\<rparr> \<in> set (outcomes (Delimited word_prefix word_body word_suffix) t (s - 1))"
    using p1 p2 p3 by (simp add: outcomes.simps del: rmatch.simps) blast
  then show ?thesis by auto
qed

lemma run_outcomes_found:
  assumes "bare_run t s e"
    and "m \<in> set (outcomes (Delimited word_prefix word_body word_suffix) t (s - 1))"
  shows "\<exists>p2. e \<le> p2 \<and> p2 \<le> length t \<and>
           found_of 4 m = [\<lparr>match = slice t s p2, index = s, mlength = p2 - s\<rparr>]"
proof -
  note r = bare_run_chars [OF assms(1)]
  have k: "s - 1 \<le> length t" using r(1,2) by simp
  from word_outcome [OF assms(2) k] obtain p1 p2 where o:
    "p1 \<in> set (rmatch word_prefix t (s - 1))" "p2 \<in> set (rmatch word_body t p1)"
    "end_index m \<in> set (rmatch word_suffix t p2)" "p1 < p2" "p2 \<le> end_index m"
    "end_index m \<le> length t"
    "found_of 4 m = [\<lparr>match = slice t p1 p2, index = p1, mlength = p2 - p1\<rparr>]"
    by blast
  from word_body_sound [OF o(2)] obtain j where j: "p1 < j" "ident_start (t ! p1)"
    "\<forall>k. p1 \<le> k \<and> k < j \<longrightarrow> k < length t \<and> ident_char (t ! k)"
    "p2 = j \<or> (j < length t \<and> t ! j = CHR 0x60 \<and> Suc j < p2)" by blast
  have p1: "p1 = s"
  proof (cases "s = 0")
    case True
    then show ?thesis
      using word_prefix_sound [OF o(1)] r(3) ident_start_char ident_not_boundary by auto
  next
    case False
    then have b: "boundary_char (t ! (s - 1))" using r(5) by simp
    from word_prefix_sound [OF o(1)] show ?thesis
    proof
      assume "p1 = s - 1 \<and> s - 1 = 0"
      then have "ident_start (t ! (s - 1))" using j(2) by simp
      then show ?thesis using b ident_start_char ident_not_boundary by blast
    next
      assume "p1 = Suc (s - 1) \<and> s - 1 < length t \<and> boundary_char (t ! (s - 1))"
      then show ?thesis using False by simp
    qed
  qed
  have je: "j \<le> e"
  proof (rule ccontr)
    assume "\<not> j \<le> e"
    then have "e < length t \<and> ident_char (t ! e)" using j(3) p1 r(1) by auto
    then show False using r(6) ident_not_boundary by auto
  qed
  have "j = e"
  proof (rule ccontr)
    assume "j \<noteq> e"
    then have lt: "j < e" using je by simp
    then have ic: "ident_char (t ! j)" "j < length t" using r(2,4) j(1) p1 by auto
    from j(4) show False
    proof
      assume "p2 = j"
      with word_suffix_sound [OF o(3)] ic ident_not_boundary show False by auto
    next
      assume "j < length t \<and> t ! j = CHR 0x60 \<and> Suc j < p2"
      with ic backtick_not_ident show False by simp
    qed
  qed
  then have "e \<le> p2" using j(4) by auto
  moreover have "p2 \<le> length t" using o(5,6) by simp
  ultimately show ?thesis using o(7) p1 by blast
qed

text \<open>A match found before the run's left delimiter ends before it, or its text ends at it.\<close>

lemma earlier_outcome:
  assumes "bare_run t s e" and "k < s - 1"
    and "m \<in> set (outcomes (Delimited word_prefix word_body word_suffix) t k)"
  shows "end_index m \<le> s - 1 \<or> (\<exists>x. found_of 4 m = [x] \<and> index x + mlength x + 1 = s)"
proof -
  note r = bare_run_chars [OF assms(1)]
  have s: "0 < s" "s - 1 < length t" "Suc (s - 1) = s" using assms(2) r(1,2) by simp_all
  then have b: "boundary_char (t ! (s - 1))" using r(5) by simp
  have k: "k \<le> length t" using assms(2) s(2) by simp
  from word_outcome [OF assms(3) k] obtain p1 p2 where o:
    "p1 \<in> set (rmatch word_prefix t k)" "p2 \<in> set (rmatch word_body t p1)"
    "end_index m \<in> set (rmatch word_suffix t p2)" "p1 < p2"
    "found_of 4 m = [\<lparr>match = slice t p1 p2, index = p1, mlength = p2 - p1\<rparr>]"
    by blast
  from word_body_sound [OF o(2)] obtain j where j: "p1 < j"
    "\<forall>k. p1 \<le> k \<and> k < j \<longrightarrow> k < length t \<and> ident_char (t ! k)"
    "p2 = j \<or> (t ! j = CHR 0x60 \<and> is_digit (t ! Suc j) \<and>
        (\<forall>k. j < k \<and> k < p2 \<longrightarrow> k < length t \<and> ident_char (t ! k)))" by blast
  have p1: "p1 \<le> s - 1" using word_prefix_sound [OF o(1)] assms(2) by auto
  have js: "j \<le> s - 1"
  proof (rule ccontr)
    assume "\<not> j \<le> s - 1"
    then have "ident_char (t ! (s - 1))" using j(2) p1 by auto
    then show False using b ident_not_boundary by blast
  qed
  have p2: "p2 \<le> s - 1"
  proof (rule ccontr)
    assume n: "\<not> p2 \<le> s - 1"
    with js j(3) have sub: "t ! j = CHR 0x60" "is_digit (t ! Suc j)"
      "\<forall>k. j < k \<and> k < p2 \<longrightarrow> k < length t \<and> ident_char (t ! k)" by auto
    show False
    proof (cases "j = s - 1")
      case True
      then have "is_digit (t ! s)" using sub(2) s(3) by simp
      then show False using r(3) ident_start_not_digit by blast
    next
      case False
      then have "j < s - 1 \<and> s - 1 < p2" using js n by simp
      then have "ident_char (t ! (s - 1))" using sub(3) by blast
      then show False using b ident_not_boundary by blast
    qed
  qed
  from word_suffix_sound [OF o(3)] p2 s(2)
  have e: "end_index m = Suc p2" by auto
  show ?thesis
  proof (cases "p2 = s - 1")
    case True
    then have "p1 + (p2 - p1) + 1 = s" using o(4) s(3) by simp
    then show ?thesis using o(5) by simp
  next
    case False
    then show ?thesis using p2 e by simp
  qed
qed

lemma collect_finds_run:
  assumes "bare_run t s e"
  shows "L \<le> s - 1 \<Longrightarrow>
         collect 4 (Delimited word_prefix word_body word_suffix) t L = Some ms \<Longrightarrow>
         \<forall>x \<in> set ms. index x + mlength x + 1 \<noteq> s \<Longrightarrow>
         \<exists>p2. e \<le> p2 \<and> p2 \<le> length t \<and>
              \<lparr>match = slice t s p2, index = s, mlength = p2 - s\<rparr> \<in> set ms"
proof (induction "Suc (length t) - L" arbitrary: L ms rule: less_induct)
  case less
  let ?p = "Delimited word_prefix word_body word_suffix"
  note r = bare_run_chars [OF assms]
  have sp: "s - 1 \<le> length t" using r(1,2) by simp
  have ne: "outcomes ?p t (s - 1) \<noteq> []" using assms by (rule run_outcomes_nonempty)
  obtain m where m: "exec ?p t L = Some m"
    using exec_None [of ?p t L "s - 1"] less.prems(1) sp ne by (cases "exec ?p t L") auto
  from exec_Some [OF m] obtain k where k: "L \<le> k" "k \<le> length t" "outcomes ?p t k \<noteq> []"
    "m = hd (outcomes ?p t k)" "\<forall>k'. L \<le> k' \<and> k' < k \<longrightarrow> outcomes ?p t k' = []" by blast
  have mem: "m \<in> set (outcomes ?p t k)" using k(3,4) hd_in_set by blast
  have ks: "k \<le> s - 1"
  proof (rule ccontr)
    assume "\<not> k \<le> s - 1"
    then have "outcomes ?p t (s - 1) = []" using k(5) less.prems(1) by simp
    with ne show False by simp
  qed
  from less.prems(2) m obtain rest where rest: "collect 4 ?p t (end_index m) = Some rest"
    "ms = found_of 4 m @ rest"
    by (subst (asm) collect_unfold) (auto simp: bind_eq_Some_conv)
  show ?case
  proof (cases "k = s - 1")
    case True
    with run_outcomes_found [OF assms] mem obtain p2 where "e \<le> p2" "p2 \<le> length t"
      "found_of 4 m = [\<lparr>match = slice t s p2, index = s, mlength = p2 - s\<rparr>]" by blast
    then show ?thesis using rest(2) by auto
  next
    case False
    then have lt: "k < s - 1" using ks by simp
    have "\<not> (\<exists>x. found_of 4 m = [x] \<and> index x + mlength x + 1 = s)"
      using less.prems(3) rest(2) by auto
    with earlier_outcome [OF assms lt mem] have en: "end_index m \<le> s - 1" by blast
    have "k < end_index m" "end_index m \<le> length t"
      using outcomes_shape [OF mem k(2)] by (simp_all add: word_body_def ident_def)
    then have dec: "Suc (length t) - end_index m < Suc (length t) - L" using k(1) by linarith
    have "\<forall>x \<in> set rest. index x + mlength x + 1 \<noteq> s" using less.prems(3) rest(2) by simp
    from less.hyps [OF dec en rest(1) this] show ?thesis using rest(2) by auto
  qed
qed

lemma find_mem_Some: "x \<in> set xs \<Longrightarrow> P x \<Longrightarrow> \<exists>a. find P xs = Some a"
proof (induction xs)
  case Nil
  then show ?case by simp
next
  case (Cons y ys)
  show ?case
  proof (cases "P y")
    case True
    then show ?thesis by simp
  next
    case False
    with Cons.prems have "x \<in> set ys" by auto
    from Cons.IH [OF this Cons.prems(2)] False show ?thesis by simp
  qed
qed

lemma find_no_mem: "\<forall>a \<in> set xs. \<not> P a \<Longrightarrow> find P xs = None"
  by (induction xs) simp_all

lemma find_concat_unique:
  "i < length fams \<Longrightarrow> x \<in> set (fams ! i) \<Longrightarrow> P x \<Longrightarrow>
   (\<forall>i' < i. \<forall>a \<in> set (fams ! i'). \<not> P a) \<Longrightarrow> (\<forall>a \<in> set (fams ! i). P a \<longrightarrow> a = x) \<Longrightarrow>
   find P (concat fams) = Some x"
proof (induction fams arbitrary: i)
  case Nil
  show ?case using Nil.prems(1) by simp
next
  case (Cons f fams)
  show ?case
  proof (cases i)
    case 0
    note u0 = Cons.prems(5) [unfolded 0 nth_Cons_0]
    have x: "x \<in> set f" using Cons.prems(2) 0 by simp
    from find_mem_Some [of x f P] x Cons.prems(3) obtain a where a: "find P f = Some a" by blast
    from find_Some_mem [OF a] have "a \<in> set f" "P a" by simp_all
    from u0 [rule_format, OF this] have "a = x" .
    with a show ?thesis by (simp add: find_append)
  next
    case (Suc j)
    have j: "j < length fams" "x \<in> set (fams ! j)"
      using Cons.prems(1,2) Suc by simp_all
    note u = Cons.prems(5) [unfolded Suc nth_Cons_Suc]
    have "0 < i" using Suc by simp
    from Cons.prems(4) [rule_format, OF this] have "\<forall>a \<in> set f. \<not> P a" by simp
    then have none: "find P f = None" by (rule find_no_mem)
    have "\<forall>i' < j. \<forall>a \<in> set (fams ! i'). \<not> P a"
    proof (intro allI impI)
      fix i' assume "i' < j"
      then have "Suc i' < i" using Suc by simp
      from Cons.prems(4) [rule_format, OF this] show "\<forall>a \<in> set (fams ! i'). \<not> P a" by simp
    qed
    from Cons.IH [OF j(1,2) Cons.prems(3) this u] none show ?thesis by (simp add: find_append)
  qed
qed

lemma sorted_wrt_ends:
  assumes "sorted_wrt (\<lambda>a b. index a + mlength a \<le> index b \<and> index a < index b) ms"
    and "a \<in> set ms" and "b \<in> set ms" and "index a < index b"
  shows "index a + mlength a \<le> index b"
proof -
  from assms(2,3) obtain i j where ij: "i < length ms" "a = ms ! i" "j < length ms" "b = ms ! j"
    by (auto simp: in_set_conv_nth)
  have "i < j"
  proof (rule ccontr)
    assume "\<not> i < j"
    then have "j = i \<or> j < i" by auto
    then show False
    proof
      assume "j = i" with ij assms(4) show False by simp
    next
      assume "j < i"
      then have "index b < index a" using assms(1) ij by (auto simp: sorted_wrt_iff_nth_less)
      with assms(4) show False by simp
    qed
  qed
  then show ?thesis using assms(1) ij by (auto simp: sorted_wrt_iff_nth_less)
qed

lemma concat_mem: "i < length fams \<Longrightarrow> a \<in> set (fams ! i) \<Longrightarrow> a \<in> set (concat fams)"
  using nth_mem [of i fams] by auto

lemma mem_concat: "a \<in> set (concat fams) \<Longrightarrow> \<exists>i < length fams. a \<in> set (fams ! i)"
proof -
  assume "a \<in> set (concat fams)"
  then obtain f where "f \<in> set fams" "a \<in> set f" by auto
  then show ?thesis by (metis in_set_conv_nth)
qed

lemma patterns_4: "patterns ! 4 = Delimited word_prefix word_body word_suffix"
  by (simp add: patterns_def)

lemma a_b_c_raw:
  "raw_matches a_b_c = Some [\<lparr>match = ''a'', index = 0, mlength = 1\<rparr>,
                             \<lparr>match = ''c'', index = 4, mlength = 1\<rparr>]"
  by code_simp

lemma a_b_c_kept:
  "unique_matches a_b_c = Some [\<lparr>match = ''a'', index = 0, mlength = 1\<rparr>,
                                \<lparr>match = ''c'', index = 4, mlength = 1\<rparr>]"
  by code_simp

lemma a_b_c_run: "bare_run a_b_c 2 3"
  by code_simp

lemma a_b_c_families_1_to_4:
  "family a_b_c 0 = Some []" "family a_b_c (Suc 0) = Some []"
  "family a_b_c 2 = Some []" "family a_b_c 3 = Some []"
  by (simp add: family_def patterns_def, code_simp)+

lemma a_b_c_family_5:
  "family a_b_c 4 = Some [\<lparr>match = ''a'', index = 0, mlength = 1\<rparr>,
                          \<lparr>match = ''c'', index = 4, mlength = 1\<rparr>]"
  by (simp add: family_def patterns_def) code_simp

section \<open>The navigation queries in terms of \<open>getVariableValue\<close>\<close>

lemma findPreviouslyChangedAt_in_range:
  assumes "0 < idx" "idx < int (length tfls)"
    and "getVariableValue (at tfls idx) variable = Inr (Some cv)"
  shows "findPreviouslyChangedAt tfls variable idx = prevLoop tfls variable cv (nat idx)"
  using assms by (simp add: findPreviouslyChangedAt_def)

text \<open>
  \<open>findPreviouslyChanged\<close> with current index \<open>idx\<close> returns not-found when \<open>idx\<close> is 0
  or \<open>- 1\<close> (no step selected), or when \<open>getVariableValue\<close> gives no value at \<open>idx\<close>;
  the current index is always \<open>- 1\<close> or an index of the timeline. Otherwise it returns
  the greatest index below \<open>idx\<close> whose step has non-empty state and where
  \<open>getVariableValue\<close> gives a value different from the one at \<open>idx\<close>, and not-found
  when there is no such index.
\<close>

lemma findPreviouslyChanged_greatest_differing:
  "(idx \<le> 0 \<longrightarrow> findPreviouslyChangedAt tfls variable idx = Inr None) \<and>
   (0 < idx \<and> idx < int (length tfls) \<and> getVariableValue (at tfls idx) variable = Inr None \<longrightarrow>
      findPreviouslyChangedAt tfls variable idx = Inr None) \<and>
   (0 < idx \<and> idx < int (length tfls) \<and> getVariableValue (at tfls idx) variable = Inr (Some cv) \<longrightarrow>
      (\<exists>j. findPreviouslyChangedAt tfls variable idx = Inr (Some j) \<and> int j < idx \<and>
           differs_at tfls variable cv j \<and>
           (\<forall>i. j < i \<and> int i < idx \<longrightarrow> \<not> differs_at tfls variable cv i)) \<or>
      (findPreviouslyChangedAt tfls variable idx = Inr None \<and>
           (\<forall>i. int i < idx \<longrightarrow> \<not> differs_at tfls variable cv i))) \<and>
   findPreviouslyChanged tfls selected variable
     = findPreviouslyChangedAt tfls variable (getCurrentStepIndex tfls selected) \<and>
   (getCurrentStepIndex tfls selected = - 1 \<or>
    (0 \<le> getCurrentStepIndex tfls selected \<and> getCurrentStepIndex tfls selected < int (length tfls))) \<and>
   findPreviouslyChanged scenario2 (Some (scenario2 ! 3)) ''ptr'' = Inr (Some 2)"
proof (intro conjI impI)
  assume "idx \<le> 0"
  then show "findPreviouslyChangedAt tfls variable idx = Inr None"
    by (simp add: findPreviouslyChangedAt_def)
next
  assume "0 < idx \<and> idx < int (length tfls) \<and> getVariableValue (at tfls idx) variable = Inr None"
  then show "findPreviouslyChangedAt tfls variable idx = Inr None"
    by (simp add: findPreviouslyChangedAt_def)
next
  assume a: "0 < idx \<and> idx < int (length tfls) \<and>
    getVariableValue (at tfls idx) variable = Inr (Some cv)"
  then have eq: "findPreviouslyChangedAt tfls variable idx = prevLoop tfls variable cv (nat idx)"
    by (simp add: findPreviouslyChangedAt_in_range)
  have le: "nat idx \<le> length tfls" using a by linarith
  have conv: "\<And>i. (i < nat idx) = (int i < idx)" using a by linarith
  show "(\<exists>j. findPreviouslyChangedAt tfls variable idx = Inr (Some j) \<and> int j < idx \<and>
           differs_at tfls variable cv j \<and>
           (\<forall>i. j < i \<and> int i < idx \<longrightarrow> \<not> differs_at tfls variable cv i)) \<or>
      (findPreviouslyChangedAt tfls variable idx = Inr None \<and>
           (\<forall>i. int i < idx \<longrightarrow> \<not> differs_at tfls variable cv i))"
    using prevLoop_char [OF le, of variable cv] unfolding eq conv .
next
  show "findPreviouslyChanged tfls selected variable
     = findPreviouslyChangedAt tfls variable (getCurrentStepIndex tfls selected)"
    by (simp add: findPreviouslyChanged_def)
next
  show "getCurrentStepIndex tfls selected = - 1 \<or>
    (0 \<le> getCurrentStepIndex tfls selected \<and> getCurrentStepIndex tfls selected < int (length tfls))"
    by (rule getCurrentStepIndex_range)
next
  show "findPreviouslyChanged scenario2 (Some (scenario2 ! 3)) ''ptr'' = Inr (Some 2)"
    by code_simp
qed

lemma findLastChanged_loop:
  assumes "tfls \<noteq> []"
    and "hasValidState (at tfls (int (length tfls) - 1)) = Inr True"
    and "getVariableValue (at tfls (int (length tfls) - 1)) variable = Inr (Some fv)"
  shows "findLastChanged tfls variable = lastLoop tfls variable fv (length tfls - 1)"
  using assms by (simp add: findLastChanged_def Let_def)

text \<open>
  \<open>findLastChanged\<close> returns not-found when the final step has empty state or
  \<open>getVariableValue\<close> gives no value there. Otherwise the answer is \<open>j + 1\<close> for the
  greatest index \<open>j\<close> below the final one whose step has non-empty state, where
  \<open>getVariableValue\<close> gives a value different from the final value, and whose successor
  has non-empty state: a differing step with an unusable successor is passed over and the
  scan goes on. When no step qualifies, in particular when no value ever differs, the
  result is not-found.
\<close>

lemma findLastChanged_spec:
  "(tfls \<noteq> [] \<and> hasValidState (at tfls (int (length tfls) - 1)) = Inr False \<longrightarrow>
      findLastChanged tfls variable = Inr None) \<and>
   (tfls \<noteq> [] \<and> getVariableValue (at tfls (int (length tfls) - 1)) variable = Inr None \<longrightarrow>
      findLastChanged tfls variable = Inr None) \<and>
   (tfls \<noteq> [] \<and> hasValidState (at tfls (int (length tfls) - 1)) = Inr True \<and>
    getVariableValue (at tfls (int (length tfls) - 1)) variable = Inr (Some fv) \<longrightarrow>
      (\<forall>j. j < length tfls - 1 \<and> last_target tfls variable fv j \<and>
           (\<forall>i. j < i \<and> i < length tfls - 1 \<longrightarrow> \<not> last_target tfls variable fv i) \<longrightarrow>
           findLastChanged tfls variable = Inr (Some (j + 1))) \<and>
      ((\<forall>i. i < length tfls - 1 \<longrightarrow> \<not> last_target tfls variable fv i) \<longrightarrow>
           findLastChanged tfls variable = Inr None) \<and>
      ((\<forall>i. i < length tfls - 1 \<longrightarrow> \<not> differs_at tfls variable fv i) \<longrightarrow>
           findLastChanged tfls variable = Inr None))"
proof (intro conjI impI allI)
  assume "tfls \<noteq> [] \<and> hasValidState (at tfls (int (length tfls) - 1)) = Inr False"
  then show "findLastChanged tfls variable = Inr None"
    by (simp add: findLastChanged_def Let_def)
next
  assume a: "tfls \<noteq> [] \<and> getVariableValue (at tfls (int (length tfls) - 1)) variable = Inr None"
  then have "length tfls - 1 < length tfls" by simp
  then obtain b where "hasValidState (at tfls (int (length tfls - 1))) = Inr b"
    using hasValidState_defined at_nat by metis
  moreover have "int (length tfls - 1) = int (length tfls) - 1" using a by (cases tfls) simp_all
  ultimately show "findLastChanged tfls variable = Inr None"
    using a by (simp add: findLastChanged_def Let_def)
next
  fix j
  assume a: "tfls \<noteq> [] \<and> hasValidState (at tfls (int (length tfls) - 1)) = Inr True \<and>
    getVariableValue (at tfls (int (length tfls) - 1)) variable = Inr (Some fv)"
  assume j: "j < length tfls - 1 \<and> last_target tfls variable fv j \<and>
           (\<forall>i. j < i \<and> i < length tfls - 1 \<longrightarrow> \<not> last_target tfls variable fv i)"
  have eq: "findLastChanged tfls variable = lastLoop tfls variable fv (length tfls - 1)"
    using a by (simp add: findLastChanged_loop)
  have le: "length tfls - 1 \<le> length tfls" by simp
  from lastLoop_char [OF le, of variable fv]
  show "findLastChanged tfls variable = Inr (Some (j + 1))"
  proof
    assume "\<exists>j'. lastLoop tfls variable fv (length tfls - 1) = Inr (Some (Suc j')) \<and>
      j' < length tfls - 1 \<and> last_target tfls variable fv j' \<and>
      (\<forall>i. j' < i \<and> i < length tfls - 1 \<longrightarrow> \<not> last_target tfls variable fv i)"
    then obtain j' where j': "lastLoop tfls variable fv (length tfls - 1) = Inr (Some (Suc j'))"
      "j' < length tfls - 1" "last_target tfls variable fv j'"
      "\<forall>i. j' < i \<and> i < length tfls - 1 \<longrightarrow> \<not> last_target tfls variable fv i"
      by blast
    have "\<not> j < j'" using j j'(2,3) by blast
    moreover have "\<not> j' < j" using j j'(4) by blast
    ultimately have "j' = j" by simp
    with j'(1) eq show ?thesis by simp
  next
    assume "lastLoop tfls variable fv (length tfls - 1) = Inr None \<and>
      (\<forall>i<length tfls - 1. \<not> last_target tfls variable fv i)"
    with j show ?thesis by blast
  qed
next
  assume a: "tfls \<noteq> [] \<and> hasValidState (at tfls (int (length tfls) - 1)) = Inr True \<and>
    getVariableValue (at tfls (int (length tfls) - 1)) variable = Inr (Some fv)"
  assume n: "\<forall>i. i < length tfls - 1 \<longrightarrow> \<not> last_target tfls variable fv i"
  have eq: "findLastChanged tfls variable = lastLoop tfls variable fv (length tfls - 1)"
    using a by (simp add: findLastChanged_loop)
  have le: "length tfls - 1 \<le> length tfls" by simp
  from lastLoop_char [OF le, of variable fv] n eq
  show "findLastChanged tfls variable = Inr None" by auto
next
  assume a: "tfls \<noteq> [] \<and> hasValidState (at tfls (int (length tfls) - 1)) = Inr True \<and>
    getVariableValue (at tfls (int (length tfls) - 1)) variable = Inr (Some fv)"
  assume "\<forall>i. i < length tfls - 1 \<longrightarrow> \<not> differs_at tfls variable fv i"
  then have n: "\<forall>i. i < length tfls - 1 \<longrightarrow> \<not> last_target tfls variable fv i"
    by (simp add: last_target_def)
  have eq: "findLastChanged tfls variable = lastLoop tfls variable fv (length tfls - 1)"
    using a by (simp add: findLastChanged_loop)
  have le: "length tfls - 1 \<le> length tfls" by simp
  from lastLoop_char [OF le, of variable fv] n eq
  show "findLastChanged tfls variable = Inr None" by auto
qed

text \<open>
  An index returned by \<open>findPreviouslyChanged\<close> or \<open>findNextChanged\<close> is an index of the
  timeline, its step has non-empty state, and \<open>getVariableValue\<close> gives a value there.
\<close>

lemma changed_index_is_valid:
  "findPreviouslyChanged tfls selected variable = Inr (Some j) \<or>
   findNextChanged tfls selected variable = Inr (Some j) \<Longrightarrow>
   j < length tfls \<and> hasValidState (at tfls (int j)) = Inr True \<and>
   (\<exists>v. getVariableValue (at tfls (int j)) variable = Inr (Some v))"
proof -
  assume a: "findPreviouslyChanged tfls selected variable = Inr (Some j) \<or>
   findNextChanged tfls selected variable = Inr (Some j)"
  define idx where "idx = getCurrentStepIndex tfls selected"
  have d: "\<And>cv. differs_at tfls variable cv j \<Longrightarrow> hasValidState (at tfls (int j)) = Inr True \<and>
      (\<exists>v. getVariableValue (at tfls (int j)) variable = Inr (Some v))"
    by (auto simp: differs_at_def split: sum.splits option.splits)
  from a show ?thesis
  proof
    assume p: "findPreviouslyChanged tfls selected variable = Inr (Some j)"
    then have p': "findPreviouslyChangedAt tfls variable idx = Inr (Some j)"
      by (simp add: findPreviouslyChanged_def idx_def)
    then have pos: "0 < idx" by (auto simp: findPreviouslyChangedAt_def split: if_splits)
    then have lt: "idx < int (length tfls)"
      using getCurrentStepIndex_range [of tfls selected] by (simp add: idx_def)
    then have "0 \<le> idx \<and> nat idx < length tfls" using pos by linarith
    then obtain r where r: "getVariableValue (at tfls idx) variable = Inr r"
      using getVariableValue_defined at_nat [of "nat idx" tfls] by (metis int_nat_eq)
    then obtain cv where cv: "r = Some cv"
      using p' pos by (cases r) (auto simp: findPreviouslyChangedAt_def)
    have eq: "prevLoop tfls variable cv (nat idx) = Inr (Some j)"
      using p' pos r cv by (simp add: findPreviouslyChangedAt_def)
    have le: "nat idx \<le> length tfls" using lt by linarith
    from prevLoop_char [OF le, of variable cv] eq
    have "j < nat idx \<and> differs_at tfls variable cv j" by auto
    with le d show ?thesis by auto
  next
    assume p: "findNextChanged tfls selected variable = Inr (Some j)"
    then have p': "findNextChangedAt tfls variable idx = Inr (Some j)"
      by (simp add: findNextChanged_def idx_def)
    then have rng: "idx \<noteq> - 1 \<and> idx < int (length tfls) - 1"
      by (auto simp: findNextChangedAt_def split: if_splits)
    then have pos: "0 \<le> idx"
      using getCurrentStepIndex_range [of tfls selected] by (auto simp: idx_def)
    then have "nat idx < length tfls" using rng by linarith
    then obtain r where r: "getVariableValue (at tfls idx) variable = Inr r"
      using getVariableValue_defined at_nat [of "nat idx" tfls] pos by (metis int_nat_eq)
    then obtain cv where cv: "r = Some cv"
      using p' rng by (cases r) (auto simp: findNextChangedAt_def)
    have eq: "nextLoop tfls variable cv (nat (idx + 1)) = Inr (Some j)"
      using p' rng r cv by (simp add: findNextChangedAt_def)
    from nextLoop_char [of tfls variable cv "nat (idx + 1)"] eq
    have "j < length tfls \<and> differs_at tfls variable cv j" by auto
    with d show ?thesis by auto
  qed
qed

text \<open>
  None of the four navigation queries raises: whatever the timeline, the selection and
  the variable, each returns a step index or the sentinel not-found. On an empty
  timeline, and for the two relative queries without a valid selection, the result is
  not-found.
\<close>

lemma navigation_never_raises:
  "(\<exists>r. findInitialized tfls variable = Inr r) \<and>
   (\<exists>r. findPreviouslyChanged tfls selected variable = Inr r) \<and>
   (\<exists>r. findNextChanged tfls selected variable = Inr r) \<and>
   (\<exists>r. findLastChanged tfls variable = Inr r) \<and>
   findInitialized [] variable = Inr None \<and>
   findPreviouslyChanged [] selected variable = Inr None \<and>
   findNextChanged [] selected variable = Inr None \<and>
   findLastChanged [] variable = Inr None \<and>
   findPreviouslyChanged tfls None variable = Inr None \<and>
   findNextChanged tfls None variable = Inr None"
proof -
  define idx where "idx = getCurrentStepIndex tfls selected"
  have rng: "idx = - 1 \<or> (0 \<le> idx \<and> idx < int (length tfls))"
    unfolding idx_def by (rule getCurrentStepIndex_range)
  have cur: "0 \<le> idx \<Longrightarrow> \<exists>r. getVariableValue (at tfls idx) variable = Inr r"
  proof -
    assume "0 \<le> idx"
    then have "nat idx < length tfls" "int (nat idx) = idx" using rng by auto
    then show ?thesis using getVariableValue_defined at_nat [of "nat idx" tfls] by metis
  qed
  have i: "\<exists>r. findInitialized tfls variable = Inr r"
    unfolding findInitialized_def by (rule initLoop_defined)
  have p: "\<exists>r. findPreviouslyChanged tfls selected variable = Inr r"
  proof (cases "idx \<le> 0")
    case True
    then show ?thesis by (simp add: findPreviouslyChanged_def findPreviouslyChangedAt_def idx_def)
  next
    case False
    then obtain r where r: "getVariableValue (at tfls idx) variable = Inr r" using cur by auto
    have le: "nat idx \<le> length tfls" using rng False by linarith
    show ?thesis
    proof (cases r)
      case None
      then show ?thesis using r False
        by (simp add: findPreviouslyChanged_def findPreviouslyChangedAt_def idx_def)
    next
      case (Some cv)
      have "\<exists>r. prevLoop tfls variable cv (nat idx) = Inr r"
        using prevLoop_char [OF le, of variable cv] by auto
      then show ?thesis using r False Some
        by (simp add: findPreviouslyChanged_def findPreviouslyChangedAt_def idx_def)
    qed
  qed
  have n: "\<exists>r. findNextChanged tfls selected variable = Inr r"
  proof (cases "idx = - 1 \<or> idx \<ge> int (length tfls) - 1")
    case True
    then show ?thesis by (auto simp add: findNextChanged_def findNextChangedAt_def idx_def)
  next
    case False
    then have "0 \<le> idx" using rng by auto
    then obtain r where r: "getVariableValue (at tfls idx) variable = Inr r" using cur by auto
    show ?thesis
    proof (cases r)
      case None
      then show ?thesis using r False
        by (simp add: findNextChanged_def findNextChangedAt_def idx_def)
    next
      case (Some cv)
      have "\<exists>r. nextLoop tfls variable cv (nat (idx + 1)) = Inr r"
        using nextLoop_char [of tfls variable cv "nat (idx + 1)"] by auto
      then show ?thesis using r False Some
        by (simp add: findNextChanged_def findNextChangedAt_def idx_def)
    qed
  qed
  have l: "\<exists>r. findLastChanged tfls variable = Inr r"
  proof (cases "tfls = []")
    case True
    then show ?thesis by (simp add: findLastChanged_def)
  next
    case False
    then have lt: "length tfls - 1 < length tfls" and c: "int (length tfls - 1) = int (length tfls) - 1"
      by (cases tfls; simp)+
    obtain b where b: "hasValidState (at tfls (int (length tfls) - 1)) = Inr b"
      using hasValidState_defined at_nat [OF lt] c by metis
    obtain r where r: "getVariableValue (at tfls (int (length tfls) - 1)) variable = Inr r"
      using getVariableValue_defined at_nat [OF lt] c by metis
    have le: "length tfls - 1 \<le> length tfls" by simp
    have "\<And>fv. \<exists>r. lastLoop tfls variable fv (length tfls - 1) = Inr r"
      using lastLoop_char [OF le, of variable] by metis
    then show ?thesis using b r False
      by (cases r) (auto simp add: findLastChanged_def Let_def)
  qed
  have e: "findInitialized [] variable = Inr None"
    by (simp add: findInitialized_def initLoop.simps)
  have e2: "findPreviouslyChanged [] selected variable = Inr None"
    "findNextChanged [] selected variable = Inr None"
    "findLastChanged [] variable = Inr None"
    by (simp_all add: findPreviouslyChanged_def findPreviouslyChangedAt_def findNextChanged_def
        findNextChangedAt_def findLastChanged_def getCurrentStepIndex_def)
  have "findIndex (\<lambda>t. False) tfls = - 1" by (induction tfls) simp_all
  then have e3: "findPreviouslyChanged tfls None variable = Inr None"
    "findNextChanged tfls None variable = Inr None"
    by (simp_all add: findPreviouslyChanged_def findPreviouslyChangedAt_def findNextChanged_def
        findNextChangedAt_def getCurrentStepIndex_def)
  show ?thesis using i p n l e e2 e3 by blast
qed

text \<open>
  \<open>findInitialized\<close> returns the least index whose step has non-empty state and where
  \<open>getVariableValue\<close> gives a value, and not-found when there is none.
\<close>

lemma initLoop_char:
  "(\<exists>j. initLoop tfls variable i = Inr (Some j) \<and> i \<le> j \<and> j < length tfls \<and>
        initialized_at tfls variable j \<and>
        (\<forall>m. i \<le> m \<and> m < j \<longrightarrow> \<not> initialized_at tfls variable m)) \<or>
   (initLoop tfls variable i = Inr None \<and>
        (\<forall>m. i \<le> m \<and> m < length tfls \<longrightarrow> \<not> initialized_at tfls variable m))"
proof (induction "length tfls - i" arbitrary: i)
  case 0
  then have "\<not> i < length tfls" by simp
  then show ?case by (auto simp add: initLoop.simps)
next
  case (Suc n)
  then have i: "i < length tfls" and n: "n = length tfls - Suc i" by simp_all
  note IH = Suc.hyps(1) [OF n]
  obtain b where b: "hasValidState (at tfls (int i)) = Inr b"
    using hasValidState_defined at_nat [OF i] by metis
  obtain r where r: "getVariableValue (at tfls (int i)) variable = Inr r"
    using getVariableValue_defined at_nat [OF i] by metis
  show ?case
  proof (cases "initialized_at tfls variable i")
    case True
    then have "initLoop tfls variable i = Inr (Some i)"
      using b r i by (subst initLoop.simps) (auto simp: initialized_at_def split: option.splits)
    with True i show ?thesis by auto
  next
    case False
    then have eq: "initLoop tfls variable i = initLoop tfls variable (Suc i)"
      using b r i by (subst initLoop.simps) (auto simp: initialized_at_def split: option.splits)
    have step: "\<And>m. i \<le> m \<Longrightarrow> \<not> Suc i \<le> m \<Longrightarrow> m = i" by simp
    from IH show ?thesis
    proof
      assume "\<exists>j. initLoop tfls variable (Suc i) = Inr (Some j) \<and> Suc i \<le> j \<and> j < length tfls \<and>
        initialized_at tfls variable j \<and>
        (\<forall>m. Suc i \<le> m \<and> m < j \<longrightarrow> \<not> initialized_at tfls variable m)"
      then obtain j where j: "initLoop tfls variable (Suc i) = Inr (Some j)" "Suc i \<le> j"
        "j < length tfls" "initialized_at tfls variable j"
        "\<forall>m. Suc i \<le> m \<and> m < j \<longrightarrow> \<not> initialized_at tfls variable m"
        by blast
      have "\<forall>m. i \<le> m \<and> m < j \<longrightarrow> \<not> initialized_at tfls variable m"
        using j(5) False step by blast
      moreover have "i \<le> j" using j(2) by simp
      ultimately show ?thesis using j eq by auto
    next
      assume a: "initLoop tfls variable (Suc i) = Inr None \<and>
        (\<forall>m. Suc i \<le> m \<and> m < length tfls \<longrightarrow> \<not> initialized_at tfls variable m)"
      then have "\<forall>m. i \<le> m \<and> m < length tfls \<longrightarrow> \<not> initialized_at tfls variable m"
        using False step by blast
      with a eq show ?thesis by simp
    qed
  qed
qed

lemma findInitialized_first:
  "(\<exists>j. findInitialized tfls variable = Inr (Some j) \<and> j < length tfls \<and>
        initialized_at tfls variable j \<and> (\<forall>m. m < j \<longrightarrow> \<not> initialized_at tfls variable m)) \<or>
   (findInitialized tfls variable = Inr None \<and>
        (\<forall>m. m < length tfls \<longrightarrow> \<not> initialized_at tfls variable m))"
  using initLoop_char [of tfls variable 0] by (simp add: findInitialized_def)

text \<open>
  \<open>findNextChanged\<close> with current index \<open>idx\<close> returns not-found when \<open>idx\<close> is \<open>- 1\<close> or
  the last index, or when \<open>getVariableValue\<close> gives no value at \<open>idx\<close>. Otherwise it
  returns the least index above \<open>idx\<close> whose step has non-empty state and where
  \<open>getVariableValue\<close> gives a value different from the one at \<open>idx\<close>, and not-found when
  there is no such index.
\<close>

lemma findNextChanged_least_differing:
  "(idx = - 1 \<or> int (length tfls) - 1 \<le> idx \<longrightarrow> findNextChangedAt tfls variable idx = Inr None) \<and>
   (0 \<le> idx \<and> idx < int (length tfls) - 1 \<and> getVariableValue (at tfls idx) variable = Inr None \<longrightarrow>
      findNextChangedAt tfls variable idx = Inr None) \<and>
   (0 \<le> idx \<and> idx < int (length tfls) - 1 \<and>
    getVariableValue (at tfls idx) variable = Inr (Some cv) \<longrightarrow>
      (\<exists>j. findNextChangedAt tfls variable idx = Inr (Some j) \<and> idx < int j \<and> j < length tfls \<and>
           differs_at tfls variable cv j \<and>
           (\<forall>i. idx < int i \<and> i < j \<longrightarrow> \<not> differs_at tfls variable cv i)) \<or>
      (findNextChangedAt tfls variable idx = Inr None \<and>
           (\<forall>i. idx < int i \<and> i < length tfls \<longrightarrow> \<not> differs_at tfls variable cv i))) \<and>
   findNextChanged tfls selected variable
     = findNextChangedAt tfls variable (getCurrentStepIndex tfls selected)"
proof (intro conjI impI)
  assume "idx = - 1 \<or> int (length tfls) - 1 \<le> idx"
  then show "findNextChangedAt tfls variable idx = Inr None"
    by (auto simp add: findNextChangedAt_def)
next
  assume "0 \<le> idx \<and> idx < int (length tfls) - 1 \<and> getVariableValue (at tfls idx) variable = Inr None"
  then show "findNextChangedAt tfls variable idx = Inr None"
    by (simp add: findNextChangedAt_def)
next
  assume a: "0 \<le> idx \<and> idx < int (length tfls) - 1 \<and>
    getVariableValue (at tfls idx) variable = Inr (Some cv)"
  then have eq: "findNextChangedAt tfls variable idx = nextLoop tfls variable cv (nat (idx + 1))"
    by (simp add: findNextChangedAt_def)
  have conv: "\<And>i. (nat (idx + 1) \<le> i) = (idx < int i)" using a by linarith
  show "(\<exists>j. findNextChangedAt tfls variable idx = Inr (Some j) \<and> idx < int j \<and> j < length tfls \<and>
           differs_at tfls variable cv j \<and>
           (\<forall>i. idx < int i \<and> i < j \<longrightarrow> \<not> differs_at tfls variable cv i)) \<or>
      (findNextChangedAt tfls variable idx = Inr None \<and>
           (\<forall>i. idx < int i \<and> i < length tfls \<longrightarrow> \<not> differs_at tfls variable cv i))"
    using nextLoop_char [of tfls variable cv "nat (idx + 1)"] unfolding eq conv .
next
  show "findNextChanged tfls selected variable
     = findNextChangedAt tfls variable (getCurrentStepIndex tfls selected)"
    by (simp add: findNextChanged_def)
qed

text \<open>
  When the fifth family does match a run. For every text, a run of letters, digits and
  underscores that does not start with a digit and is bounded on each side by the end of
  the text or by a character that is neither an identifier character nor a dot gives a
  raw match of the fifth family that starts at the run's offset and holds the run (and a
  subscript suffix where one follows), unless a match of that family ends just before
  the run's left delimiter and has consumed it. The match is kept as a token when it
  overlaps no raw match of the first four families.
\<close>

lemma bare_run_matched:
  assumes "bare_run t s e" and "family t 4 = Some fam5" and "unique_matches t = Some kept"
    and "\<forall>m \<in> set fam5. index m + mlength m + 1 \<noteq> s"
  shows "\<exists>m \<in> set fam5. index m = s \<and> e \<le> s + mlength m \<and> s + mlength m \<le> length t \<and>
           match m = slice t s (s + mlength m) \<and>
           ((\<forall>i < 4. \<forall>fam a. family t i = Some fam \<and> a \<in> set fam \<longrightarrow>
                index a + mlength a \<le> s \<or> s + mlength m \<le> index a) \<longrightarrow>
            m \<in> set kept)"
proof -
  let ?p = "Delimited word_prefix word_body word_suffix"
  note r = bare_run_chars [OF assms(1)]
  have c5: "collect 4 ?p t 0 = Some fam5" using assms(2) by (simp add: family_def patterns_4)
  from collect_finds_run [OF assms(1) _ c5 assms(4)] obtain p2 where p2: "e \<le> p2" "p2 \<le> length t"
    "\<lparr>match = slice t s p2, index = s, mlength = p2 - s\<rparr> \<in> set fam5" by auto
  define x where "x = \<lparr>match = slice t s p2, index = s, mlength = p2 - s\<rparr>"
  have x: "x \<in> set fam5" "index x = s" "mlength x = p2 - s" "match x = slice t s p2"
    using p2(3) by (simp_all add: x_def)
  have sp: "s + mlength x = p2" "0 < mlength x" using x(3) r(1) p2(1) by simp_all
  have kept_if: "m \<in> set kept" if H: "\<forall>i < 4. \<forall>fam a. family t i = Some fam \<and> a \<in> set fam \<longrightarrow>
                index a + mlength a \<le> s \<or> s + mlength m \<le> index a" and mx: "m = x" for m
  proof -
    from assms(3) obtain raw where raw: "raw_matches t = Some raw"
      and kept: "kept = remove_overlaps [] (sort_key index raw)"
      by (auto simp: unique_matches_def)
    from raw_matches_total [of t] raw have wf: "list_all (wf_match t) raw" by simp
    from raw_matches_families [OF raw] obtain fams where fams: "length fams = length patterns"
      "\<forall>i < length patterns. family t i = Some (fams ! i)" "raw = concat fams" by blast
    have len: "length patterns = 5" by (simp add: patterns_def)
    have f4: "fams ! 4 = fam5" using fams(2) assms(2) len by simp
    have H': "\<And>i a. i < 4 \<Longrightarrow> a \<in> set (fams ! i) \<Longrightarrow>
        index a + mlength a \<le> s \<or> p2 \<le> index a"
    proof -
      fix i a assume i: "i < (4::nat)" and a: "a \<in> set (fams ! i)"
      then have "family t i = Some (fams ! i)" using fams(2) len by simp
      with H i a have "index a + mlength a \<le> s \<or> s + mlength m \<le> index a" by blast
      then show "index a + mlength a \<le> s \<or> p2 \<le> index a" using mx sp(1) by simp
    qed
    have pos: "\<And>i a. i < 5 \<Longrightarrow> a \<in> set (fams ! i) \<Longrightarrow> 0 < mlength a"
    proof -
      fix i a assume "i < (5::nat)" "a \<in> set (fams ! i)"
      then have "a \<in> set raw" using fams(1,3) len concat_mem [of i fams a] by simp
      then show "0 < mlength a" using wf by (auto simp: list_all_iff wf_match_def)
    qed
    from collect_total [of 4 ?p t 0] c5 have o5: "ordered_from 0 fam5" "list_all (wf_match t) fam5"
      by (simp_all add: word_body_def ident_def)
    then have "list_all (\<lambda>m. 0 < mlength m) fam5" by (auto simp: list_all_iff wf_match_def)
    with o5(1) have sw: "sorted_wrt (\<lambda>a b. index a + mlength a \<le> index b \<and> index a < index b) fam5"
      using ordered_from_sorted_wrt by blast
    then have "distinct (map index fam5)" by (rule sorted_wrt_distinct_index)
    then have inj: "inj_on index (set fam5)" by (simp add: distinct_map)
    have uniq: "\<forall>a \<in> set (fams ! 4). index a = s \<longrightarrow> a = x"
    proof (intro ballI impI)
      fix a assume "a \<in> set (fams ! 4)" "index a = s"
      then show "a = x" using inj x(1,2) f4 by (auto dest: inj_onD)
    qed
    have before: "\<forall>i' < 4. \<forall>a \<in> set (fams ! i'). \<not> index a = s"
    proof (intro allI impI ballI)
      fix i' a assume i': "i' < (4::nat)" and a: "a \<in> set (fams ! i')"
      from H' [OF i' a] pos [of i' a] i' a r(1) p2(1) show "\<not> index a = s" by auto
    qed
    have x4: "x \<in> set (fams ! 4)" using x(1) f4 by simp
    have l4: "4 < length fams" using fams(1) len by simp
    have fnd: "find (\<lambda>m. index m = s) raw = Some x"
      unfolding fams(3) using l4 x4 x(2) before uniq by (rule find_concat_unique)
    then have fnd': "find (\<lambda>m. index m = s) (sort_key index raw) = Some x"
      by (simp add: find_sort_key_stable)
    have fits: "\<forall>K \<in> set (remove_overlaps [] (sort_key index raw)).
        index K < s \<longrightarrow> index K + mlength K \<le> s"
    proof (intro ballI impI)
      fix K assume K: "K \<in> set (remove_overlaps [] (sort_key index raw))" and lt: "index K < s"
      then have "K \<in> set raw" using remove_overlaps_set [of "[]" "sort_key index raw"] by auto
      then obtain i where i: "i < 5" "K \<in> set (fams ! i)"
        using fams(1,3) len mem_concat [of K fams] by auto
      show "index K + mlength K \<le> s"
      proof (cases "i < 4")
        case True
        from H' [OF True i(2)] lt r(1) p2(1) show ?thesis by auto
      next
        case False
        then have "i = 4" using i(1) by simp
        then have "K \<in> set fam5" using i(2) f4 by simp
        from sorted_wrt_ends [OF sw this x(1)] lt x(2) show ?thesis by simp
      qed
    qed
    have "sorted (map index (sort_key index raw))" by simp
    from remove_overlaps_keeps_first [OF this fnd' fits] show "m \<in> set kept"
      using mx kept by simp
  qed
  have "index x = s \<and> e \<le> s + mlength x \<and> s + mlength x \<le> length t \<and>
           match x = slice t s (s + mlength x) \<and>
           ((\<forall>i < 4. \<forall>fam a. family t i = Some fam \<and> a \<in> set fam \<longrightarrow>
                index a + mlength a \<le> s \<or> s + mlength x \<le> index a) \<longrightarrow>
            x \<in> set kept)"
    using x sp p2 kept_if by auto
  with x(1) show ?thesis by blast
qed

section \<open>The navigation claims\<close>

text \<open>
  Claim C2. \<open>findPreviouslyChanged\<close> is to return the greatest index below the current one
  whose step has non-empty state, where the variable is defined, and whose projected
  value differs from the current one. On the timeline \<open>{x: "1"}\<close>, \<open>{constructor: "C"}\<close>
  with step 1 selected and the variable \<open>constructor\<close>, the variable is defined at step 1
  and at no step below it, yet the query returns index 0: the property read at step 0
  finds the inherited member \<open>Object.prototype.constructor\<close>, and its string form differs
  from \<open>C\<close>. On scenario 2 the query for \<open>ptr\<close> at index 3 returns 2.
\<close>

theorem findPreviouslyChanged_inherited_member:
  "own_entry (inherited_prev ! 1) ''constructor'' = Some (VString ''C'') \<and>
   own_entry (inherited_prev ! 0) ''constructor'' = None \<and>
   getVariableValue (at inherited_prev 0) ''constructor''
     = Inr (Some ''function Object() { [native code] }'') \<and>
   findPreviouslyChanged inherited_prev (Some (inherited_prev ! 1)) ''constructor'' = Inr (Some 0) \<and>
   findPreviouslyChanged scenario2 (Some (scenario2 ! 3)) ''ptr'' = Inr (Some 2)"
  by code_simp

text \<open>
  Claim C3. \<open>findLastChanged\<close> is to return not-found when the variable is undefined at
  the final step. On the timeline \<open>{constructor: "C"}\<close>, \<open>{x: "1"}\<close> the variable
  \<open>constructor\<close> is undefined at the final step, which has non-empty state, yet the query
  returns index 1: the property read at the final step finds the inherited member
  \<open>Object.prototype.constructor\<close>, and the value \<open>C\<close> of step 0 differs from its string
  form. Where no inherited member is involved the scan behaves as described: a differing
  step whose successor has empty state is passed over (\<open>a\<close> is 1, 3, absent, 2: the
  result is 1, not 2), and on scenario 3, where the value never changes, the result is
  not-found.
\<close>

theorem findLastChanged_inherited_member:
  "own_entry (inherited_last ! 1) ''constructor'' = None \<and>
   hasValidState (at inherited_last 1) = Inr True \<and>
   findLastChanged inherited_last ''constructor'' = Inr (Some 1) \<and>
   findLastChanged unusable_successor ''a'' = Inr (Some 1) \<and>
   findLastChanged scenario3 ''ptr'' = Inr None"
  by code_simp

text \<open>
  Claim C8. An index returned by \<open>findPreviouslyChanged\<close> or \<open>findNextChanged\<close> is to be
  one where the queried variable has a defined projected value. For the variable
  \<open>constructor\<close>, \<open>findPreviouslyChanged\<close> on \<open>{x: "1"}\<close>, \<open>{constructor: "C"}\<close> with step 1
  selected returns index 0, and \<open>findNextChanged\<close> on \<open>{constructor: "C"}\<close>, \<open>{x: "1"}\<close>
  with step 0 selected returns index 1; the state of the returned step has only the
  entry \<open>x\<close>. The returned index is an index of the timeline and its step has non-empty
  state.
\<close>

theorem changed_index_inherited_member:
  "findPreviouslyChanged inherited_prev (Some (inherited_prev ! 1)) ''constructor'' = Inr (Some 0) \<and>
   state (inherited_prev ! 0) = Some [(''x'', VString ''1'')] \<and>
   own_entry (inherited_prev ! 0) ''constructor'' = None \<and>
   findNextChanged inherited_last (Some (inherited_last ! 0)) ''constructor'' = Inr (Some 1) \<and>
   state (inherited_last ! 1) = Some [(''x'', VString ''1'')] \<and>
   own_entry (inherited_last ! 1) ''constructor'' = None"
  by code_simp

text \<open>
  Claim C10. Each navigation query is to return not-found when the variable is undefined
  at the required position. For the variable \<open>constructor\<close>, undefined at step 1 of
  \<open>{constructor: "C"}\<close>, \<open>{x: "1"}\<close> and at step 0 of \<open>{x: "1"}\<close>, \<open>{constructor: "C"}\<close>:
  \<open>findPreviouslyChanged\<close> with step 1 of the first timeline selected returns index 0,
  \<open>findLastChanged\<close> on the first timeline returns index 1, \<open>findNextChanged\<close> with
  step 0 of the second timeline selected returns index 1, and \<open>findInitialized\<close> on the
  one-step timeline \<open>{x: "1"}\<close>, where the variable is defined nowhere, returns index 0.
  None of the queries raises.
\<close>

theorem not_found_inherited_member:
  "own_entry (inherited_last ! 1) ''constructor'' = None \<and>
   findPreviouslyChanged inherited_last (Some (inherited_last ! 1)) ''constructor'' = Inr (Some 0) \<and>
   findLastChanged inherited_last ''constructor'' = Inr (Some 1) \<and>
   own_entry (inherited_prev ! 0) ''constructor'' = None \<and>
   findNextChanged inherited_prev (Some (inherited_prev ! 0)) ''constructor'' = Inr (Some 1) \<and>
   take 1 inherited_prev = [\<lparr>oid = 0, state = Some [(''x'', VString ''1'')]\<rparr>] \<and>
   findInitialized (take 1 inherited_prev) ''constructor'' = Inr (Some 0)"
  by code_simp

section \<open>The scanner claims\<close>

text \<open>
  Claim C1. For every text the scanner returns, and its kept matches have strictly
  increasing, pairwise non-overlapping ranges \<open>[index, index + length)\<close> inside the text,
  each holding the text of its own range. The parts built from them (the plain text
  before each token, the token, the trailing plain text) concatenate to the text.
\<close>

theorem scan_tokens_partition_text:
  "\<exists>kept. unique_matches t = Some kept \<and>
      sorted_wrt (\<lambda>a b. index a + mlength a \<le> index b \<and> index a < index b) kept \<and>
      list_all (\<lambda>m. 0 < mlength m \<and> index m + mlength m \<le> length t \<and>
                      match m = slice t (index m) (index m + mlength m)) kept \<and>
      concat (map part_text (build_parts t 0 kept)) = t \<and>
      (\<exists>r. renderVariableName t = Some r \<and> rendered_text r = t)"
proof -
  from raw_matches_total obtain ms where ms: "raw_matches t = Some ms" "list_all (wf_match t) ms"
    by blast
  define kept where "kept = remove_overlaps [] (sort_key index ms)"
  have k: "unique_matches t = Some kept" by (simp add: unique_matches_def ms kept_def)
  have "set kept \<subseteq> set ms" using remove_overlaps_set [of "[]" "sort_key index ms"]
    by (simp add: kept_def)
  then have w: "list_all (wf_match t) kept" using ms(2) by (auto simp: list_all_iff)
  have o: "ordered_from 0 kept" unfolding kept_def by (rule remove_overlaps_ordered) simp
  have "list_all (\<lambda>m. 0 < mlength m) kept" using w by (auto simp: list_all_iff wf_match_def)
  with o have s: "sorted_wrt (\<lambda>a b. index a + mlength a \<le> index b \<and> index a < index b) kept"
    using ordered_from_sorted_wrt by blast
  have l: "list_all (\<lambda>m. 0 < mlength m \<and> index m + mlength m \<le> length t \<and>
                      match m = slice t (index m) (index m + mlength m)) kept"
    using w by (auto simp: list_all_iff wf_match_def)
  have c: "concat (map part_text (build_parts t 0 kept)) = t"
    using build_parts_concat [OF o w, of ] by simp
  have "\<exists>r. renderVariableName t = Some r \<and> rendered_text r = t"
    using k c by (simp add: renderVariableName_def)
  with k s l c show ?thesis by blast
qed

text \<open>
  Claim C4, as stated, fails: on the text of scenario 1 the kept tokens are not the two
  the claim lists.
\<close>

theorem scenario1_two_tokens_counterexample:
  "map_option (map match) (unique_matches scenario1)
     \<noteq> Some [''obj.method()'', ''offset(x+1)'' @ [CHR 0x60] @ ''123a'']"
  by (simp add: scenario1_kept)

text \<open>
  Claim C4, amended. Scanning the text of scenario 1 produces exactly three tokens:
  \<open>obj.method()\<close> at offset 0, the bare identifier \<open>returned\<close> at offset 13 and
  \<open>offset(x+1)`123a\<close> at offset 22. The two spaces between them are left as plain
  text.
\<close>

theorem scenario1_three_tokens:
  "map_option (map (\<lambda>m. (match m, index m))) (unique_matches scenario1) =
     Some [(''obj.method()'', 0), (''returned'', 13),
           (''offset(x+1)'' @ [CHR 0x60] @ ''123a'', 22)] \<and>
   renderVariableName scenario1 =
     Some (Fragment [Span ''obj.method()'', Plain '' '', Span ''returned'', Plain '' '',
                     Span (''offset(x+1)'' @ [CHR 0x60] @ ''123a'')])"
proof -
  have "build_parts scenario1 0
          [\<lparr>match = ''obj.method()'', index = 0, mlength = 12\<rparr>,
           \<lparr>match = ''returned'', index = 13, mlength = 8\<rparr>,
           \<lparr>match = ''offset(x+1)'' @ [CHR 0x60] @ ''123a'', index = 22, mlength = 16\<rparr>] =
        [Span ''obj.method()'', Plain '' '', Span ''returned'', Plain '' '',
         Span (''offset(x+1)'' @ [CHR 0x60] @ ''123a'')]"
    by code_simp
  then show ?thesis by (simp add: scenario1_kept renderVariableName_def)
qed

text \<open>
  Claim C6, as stated, fails: in \<open>{y->z}\<close> the arrow chain \<open>y->z\<close> (family 2) and the
  bare identifier \<open>y\<close> (family 5) both start at offset 1, and the sweep keeps neither,
  because the brace expression kept before them covers that offset.
\<close>

theorem tie_both_discarded_counterexample:
  "family braces 1 = Some [\<lparr>match = ''y->z'', index = 1, mlength = 4\<rparr>] \<and>
   family braces 4 = Some [\<lparr>match = ''y'', index = 1, mlength = 1\<rparr>,
                          \<lparr>match = ''z'', index = 4, mlength = 1\<rparr>] \<and>
   unique_matches braces = Some [\<lparr>match = ''{y->z}'', index = 0, mlength = 6\<rparr>] \<and>
   \<lparr>match = ''y->z'', index = 1, mlength = 4\<rparr> \<notin> set (the (unique_matches braces))"
  using braces_family_1 braces_family_4 braces_kept by simp

text \<open>
  Claim C6, amended. When raw matches of different families start at the same offset,
  the sweep never prefers the higher-numbered family: a kept match is the first raw
  match collected at its offset, so it comes from the lowest-numbered family that
  matches there, and no two kept matches share an offset. The first raw match
  collected at an offset is kept whenever every match kept at a smaller offset ends
  at or before that offset; no match is kept at an offset that lies inside a match
  kept at a smaller offset.
\<close>

theorem tie_break_by_family:
  assumes "raw_matches t = Some raw" and "unique_matches t = Some kept"
  shows "(\<forall>K \<in> set kept. find (\<lambda>m. index m = index K) raw = Some K) \<and>
         (\<forall>K \<in> set kept. \<forall>i A fam.
             i < length patterns \<and> family t i = Some fam \<and> A \<in> set fam \<and> index A = index K \<longrightarrow>
             (\<exists>i' fam'. i' \<le> i \<and> family t i' = Some fam' \<and> K \<in> set fam')) \<and>
         (\<forall>A. find (\<lambda>m. index m = index A) raw = Some A \<and>
              (\<forall>K \<in> set kept. index K < index A \<longrightarrow> index K + mlength K \<le> index A) \<longrightarrow>
              A \<in> set kept) \<and>
         (\<forall>K \<in> set kept. \<forall>B \<in> set kept.
              index K < index B \<longrightarrow> index K + mlength K \<le> index B) \<and>
         distinct (map index kept)"
proof -
  from raw_matches_total [of t] assms(1) have wf: "list_all (wf_match t) raw" by simp
  then have pos: "\<forall>x \<in> set (sort_key index raw). 0 < mlength x"
    by (auto simp: list_all_iff wf_match_def)
  have kept: "kept = remove_overlaps [] (sort_key index raw)"
    using assms by (simp add: unique_matches_def)
  have first: "\<And>K. K \<in> set kept \<Longrightarrow> find (\<lambda>m. index m = index K) raw = Some K"
  proof -
    fix K assume "K \<in> set kept"
    then have "K \<in> set (remove_overlaps [] (sort_key index raw))" by (simp add: kept)
    from remove_overlaps_first [OF pos this]
    have "find (\<lambda>m. index m = index K) (sort_key index raw) = Some K" by simp
    then show "find (\<lambda>m. index m = index K) raw = Some K" by (simp add: find_sort_key_stable)
  qed
  from raw_matches_families [OF assms(1)] obtain fams where fams:
    "length fams = length patterns" "\<forall>i < length patterns. family t i = Some (fams ! i)"
    "raw = concat fams" by blast
  have fam: "\<And>K i A fam. K \<in> set kept \<Longrightarrow> i < length patterns \<Longrightarrow> family t i = Some fam \<Longrightarrow>
      A \<in> set fam \<Longrightarrow> index A = index K \<Longrightarrow>
      \<exists>i' fam'. i' \<le> i \<and> family t i' = Some fam' \<and> K \<in> set fam'"
  proof -
    fix K i A fam
    assume K: "K \<in> set kept" and i: "i < length patterns" and f: "family t i = Some fam"
      and A: "A \<in> set fam" "index A = index K"
    have "fam = fams ! i" using f fams(2) i by simp
    with A have A': "A \<in> set (fams ! i)" by simp
    have "find (\<lambda>m. index m = index K) (concat fams) = Some K" using first [OF K] fams(3) by simp
    from find_concat_family [OF this _ A' A(2)] i fams(1)
    obtain i' where i': "i' \<le> i" "K \<in> set (fams ! i')" by auto
    then have "family t i' = Some (fams ! i')" using fams(2) i by simp
    with i' show "\<exists>i' fam'. i' \<le> i \<and> family t i' = Some fam' \<and> K \<in> set fam'" by blast
  qed
  have keep: "\<And>A. find (\<lambda>m. index m = index A) raw = Some A \<Longrightarrow>
      \<forall>K \<in> set kept. index K < index A \<longrightarrow> index K + mlength K \<le> index A \<Longrightarrow> A \<in> set kept"
  proof -
    fix A
    assume "find (\<lambda>m. index m = index A) raw = Some A"
      and fits: "\<forall>K \<in> set kept. index K < index A \<longrightarrow> index K + mlength K \<le> index A"
    then have "find (\<lambda>m. index m = index A) (sort_key index raw) = Some A"
      by (simp add: find_sort_key_stable)
    moreover have "sorted (map index (sort_key index raw))" by simp
    ultimately show "A \<in> set kept"
      unfolding kept using fits [unfolded kept] by (intro remove_overlaps_keeps_first)
  qed
  have "set kept \<subseteq> set raw" using remove_overlaps_set [of "[]" "sort_key index raw"]
    by (simp add: kept)
  then have "list_all (\<lambda>m. 0 < mlength m) kept" using wf by (auto simp: list_all_iff wf_match_def)
  moreover have "ordered_from 0 kept" unfolding kept by (rule remove_overlaps_ordered) simp
  ultimately have sw:
    "sorted_wrt (\<lambda>a b. index a + mlength a \<le> index b \<and> index a < index b) kept"
    using ordered_from_sorted_wrt by blast
  then have d: "distinct (map index kept)" by (rule sorted_wrt_distinct_index)
  have inside: "\<And>K B. K \<in> set kept \<Longrightarrow> B \<in> set kept \<Longrightarrow> index K < index B \<Longrightarrow>
      index K + mlength K \<le> index B"
    by (rule sorted_wrt_ends [OF sw])
  show ?thesis
  proof (intro conjI ballI allI impI)
    fix K assume "K \<in> set kept"
    then show "find (\<lambda>m. index m = index K) raw = Some K" by (rule first)
  next
    fix K i A fam
    assume "K \<in> set kept"
      and "i < length patterns \<and> family t i = Some fam \<and> A \<in> set fam \<and> index A = index K"
    then show "\<exists>i' fam'. i' \<le> i \<and> family t i' = Some fam' \<and> K \<in> set fam'"
      using fam by blast
  next
    fix A
    assume "find (\<lambda>m. index m = index A) raw = Some A \<and>
      (\<forall>K \<in> set kept. index K < index A \<longrightarrow> index K + mlength K \<le> index A)"
    then show "A \<in> set kept" using keep by blast
  next
    fix K B assume "K \<in> set kept" "B \<in> set kept" "index K < index B"
    then show "index K + mlength K \<le> index B" by (rule inside)
  next
    show "distinct (map index kept)" by (rule d)
  qed
qed

theorem tie_break_by_family_witness:
  "raw_matches offset_x =
     Some [\<lparr>match = ''offset(x)'', index = 0, mlength = 9\<rparr>,
           \<lparr>match = ''offset'', index = 0, mlength = 6\<rparr>] \<and>
   unique_matches offset_x = Some [\<lparr>match = ''offset(x)'', index = 0, mlength = 9\<rparr>] \<and>
   family offset_x 4 = Some [\<lparr>match = ''offset'', index = 0, mlength = 6\<rparr>] \<and>
   (\<exists>i' fam'. i' \<le> 4 \<and> family offset_x i' = Some fam' \<and>
       \<lparr>match = ''offset(x)'', index = 0, mlength = 9\<rparr> \<in> set fam') \<and>
   \<lparr>match = ''offset(x)'', index = 0, mlength = 9\<rparr> \<in> set (the (unique_matches offset_x))"
proof -
  let ?K = "\<lparr>match = ''offset(x)'', index = 0, mlength = 9\<rparr>"
  let ?A = "\<lparr>match = ''offset'', index = 0, mlength = 6\<rparr>"
  note T = tie_break_by_family [OF offset_x_matches(1,2)]
  have K: "?K \<in> set [?K]" by simp
  have "4 < length patterns \<and> family offset_x 4 = Some [?A] \<and> ?A \<in> set [?A] \<and>
      index ?A = index ?K"
    by (simp add: offset_x_matches patterns_def)
  with T K have "\<exists>i' fam'. i' \<le> 4 \<and> family offset_x i' = Some fam' \<and> ?K \<in> set fam'"
    by blast
  then show ?thesis by (simp add: offset_x_matches)
qed

text \<open>
  Claim C5. Every bounded run of identifier characters that overlaps no match of
  families 1 to 4 is to become a token. In \<open>a b c\<close> the run \<open>b\<close> at offset 2 starts
  with a letter and is bounded by a space on each side, and families 1 to 4 match
  nothing in this text; yet the fifth family matches only \<open>a\<close> and \<open>c\<close>, and these are
  the only tokens: the match of \<open>a\<close> has consumed the space before \<open>b\<close> as its trailing
  delimiter, so the search resumes at \<open>b\<close> itself, where no leading delimiter is left.
\<close>

theorem bare_identifier_b_skipped:
  "a_b_c = ''a b c'' \<and>
   slice a_b_c 2 3 = ''b'' \<and> ident_start (a_b_c ! 2) \<and>
   \<not> ident_char (a_b_c ! 1) \<and> \<not> ident_char (a_b_c ! 3) \<and>
   family a_b_c 0 = Some [] \<and> family a_b_c (Suc 0) = Some [] \<and>
   family a_b_c 2 = Some [] \<and> family a_b_c 3 = Some [] \<and>
   family a_b_c 4 = Some [\<lparr>match = ''a'', index = 0, mlength = 1\<rparr>,
                          \<lparr>match = ''c'', index = 4, mlength = 1\<rparr>] \<and>
   raw_matches a_b_c = Some [\<lparr>match = ''a'', index = 0, mlength = 1\<rparr>,
                             \<lparr>match = ''c'', index = 4, mlength = 1\<rparr>] \<and>
   unique_matches a_b_c = Some [\<lparr>match = ''a'', index = 0, mlength = 1\<rparr>,
                                \<lparr>match = ''c'', index = 4, mlength = 1\<rparr>]"
proof -
  have "slice a_b_c 2 3 = ''b''" "ident_start (a_b_c ! 2)"
    "\<not> ident_char (a_b_c ! 1)" "\<not> ident_char (a_b_c ! 3)"
    by code_simp+
  then show ?thesis
    using a_b_c_families_1_to_4 a_b_c_family_5 a_b_c_raw a_b_c_kept by (simp add: a_b_c_def)
qed

section \<open>The projection claim\<close>

lemma get_substitution_plain:
  "CHR ''$'' \<notin> set repl \<Longrightarrow> get_substitution matched pre post repl = repl"
  by (induction matched pre post repl rule: get_substitution.induct) auto

text \<open>
  Claim C7 says that the display value is the \<open>text\<close> field of an object that has one
  and that every \<open>{expr}\<close> becomes the key in parentheses. The projection does so for
  the key \<open>count\<close>, but not for a key that holds a replacement pattern such as \<open>$&\<close> or
  \<open>$$\<close>, and not for an object whose text is the empty string.
\<close>

theorem project_dollar_key:
  "processValue ''$&'' (VString ''{expr} == 5'') = ''({expr}) == 5'' \<and>
   processValue ''$$'' (VString ''{expr} == 5'') = ''($) == 5'' \<and>
   processValue ''k'' (VObject (Some [])) = ''[object Object]'' \<and>
   processValue ''count'' (VString ''{expr} == 5'') = ''(count) == 5''"
  by (simp add: processValue_def)

section \<open>The tabular engine claim\<close>

text \<open>
  Claim C9, as stated, fails for a column that is not the active sort column: from the
  initial state of the states table (sorted by Key, ascending), two calls of
  \<open>toggleSort\<close> with \<open>Value\<close> leave the rows sorted by Value, descending.
\<close>

theorem toggleSort_twice_other_column_counterexample:
  "rows (toggleSort ''Value'' (toggleSort ''Value'' statesTableStore)) two_states
     \<noteq> rows statesTableStore two_states"
  unfolding rows_default rows_value_twice by (simp add: two_states_def)

text \<open>
  Claim C9, amended. For every entity collection, two calls of \<open>toggleSort\<close> with the
  name of the active sort column restore the sort state, and with it the groups and
  the order of the rows (ascending if it was ascending). With the name of another
  column they leave that column active in descending direction.
\<close>

theorem toggleSort_twice_active_column:
  "(sortColumn st = c \<longrightarrow>
      toggleSort c (toggleSort c st) = st \<and>
      sortedFilteredGroups groupOf (toggleSort c (toggleSort c st)) entities
        = sortedFilteredGroups groupOf st entities) \<and>
   (sortColumn st \<noteq> c \<longrightarrow>
      sortColumn (toggleSort c (toggleSort c st)) = c \<and>
      sortDir (toggleSort c (toggleSort c st)) = Desc)"
proof (intro conjI impI)
  assume a: "sortColumn st = c"
  show t: "toggleSort c (toggleSort c st) = st"
    using a by (cases "sortDir st") (simp_all add: toggleSort_def)
  show "sortedFilteredGroups groupOf (toggleSort c (toggleSort c st)) entities
        = sortedFilteredGroups groupOf st entities"
    by (simp only: t)
next
  assume "sortColumn st \<noteq> c"
  then show "sortColumn (toggleSort c (toggleSort c st)) = c"
    and "sortDir (toggleSort c (toggleSort c st)) = Desc"
    by (simp_all add: toggleSort_def)
qed

theorem toggleSort_twice_active_column_witness:
  "sortColumn statesTableStore = ''Key'' \<and>
   toggleSort ''Key'' (toggleSort ''Key'' statesTableStore) = statesTableStore \<and>
   rows (toggleSort ''Key'' (toggleSort ''Key'' statesTableStore)) two_states
     = rows statesTableStore two_states \<and>
   sortColumn (toggleSort ''Value'' (toggleSort ''Value'' statesTableStore)) = ''Value'' \<and>
   sortDir (toggleSort ''Value'' (toggleSort ''Value'' statesTableStore)) = Desc"
proof -
  have k: "sortColumn statesTableStore = ''Key''"
    by (simp add: statesTableStore_def statesColumns_def)
  show ?thesis
    using toggleSort_twice_active_column [of statesTableStore "''Key''" "\<lambda>_. None :: unit option" two_states]
      toggleSort_twice_active_column [of statesTableStore "''Value''" "\<lambda>_. None :: unit option" two_states] k
    by (simp add: rows_def)
qed

end
